theory Spec2Isabelle
  imports Main "HOL-Library.Word"
begin

unbundle bit_operations_syntax

section \<open>Pool-with-remembered-set engine\<close>

text \<open>
  The engine of \<^verbatim>\<open>rem_boxroot.c\<close>, on an LP64 platform: pointers and OCaml values
  are 64-bit words, \<^verbatim>\<open>sizeof(struct header)\<close> is 48 and a slot is 8 bytes.

  Memory is an explicit store: a partial map from the base address of every pool the
  page allocator has handed out to the contents of that pool (the header fields and
  the \<^verbatim>\<open>roots\<close> array). A pointer to a slot is an address; it denotes the cell
  \<^verbatim>\<open>roots[i]\<close> of the pool whose page contains it. Dereferencing the null pointer,
  an address outside every live pool, or a slot pointer that is not the address of a
  \<^verbatim>\<open>roots\<close> cell is an error value, as is a failed \<^verbatim>\<open>assert\<close>.

  What the runtime and the platform headers supply is a parameter: the debug level
  \<^verbatim>\<open>BOXROOT_DEBUG\<close> and the nursery test \<^verbatim>\<open>Is_young\<close> (record \<open>env\<close>), the
  scanning action and the answer of \<^verbatim>\<open>bxr_in_minor_collection\<close> (arguments of the
  scanning functions), and the answers of the page allocator (the field
  \<open>page_supply\<close> of the state: the address and the uninitialised contents of each pool
  it will return, the null address for a failed allocation). The remembered set is the
  list \<open>ref_table\<close>, standard error the list \<open>stderr\<close>, and \<open>scanned\<close> records the
  address of every slot the scanning action was invoked on. The counters that only a
  debug build prints and the wall-clock timings are left out.

  Loops over a ring of pools may fail to terminate on a malformed ring: they are
  partial functions into \<open>option\<close>, \<open>None\<close> meaning that the call does not return.
\<close>

subsection \<open>Parameters and data types\<close>

type_synonym addr = "64 word"
type_synonym val = "64 word"

definition POOL_LOG_SIZE :: nat where
  "POOL_LOG_SIZE = 14"

definition POOL_SIZE :: addr where
  "POOL_SIZE = push_bit POOL_LOG_SIZE 1"

definition HEADER_SIZE :: nat where
  "HEADER_SIZE = 48"

definition SLOT_SIZE :: nat where
  "SLOT_SIZE = 8"

definition POOL_ROOTS_CAPACITY :: nat where
  "POOL_ROOTS_CAPACITY = (unat POOL_SIZE - HEADER_SIZE) div SLOT_SIZE"

record pool =
  hd_prev :: addr
  hd_next :: addr
  major_free_list :: addr
  minor_free_list :: addr
  last_minor_free_slot :: addr
  alloc_count :: int
  roots :: "nat \<Rightarrow> 64 word"

record stats =
  minor_collections :: int
  major_collections :: int
  total_scanning_work :: int
  useful_scanning_work :: int
  total_alloced_pools :: int
  total_freed_pools :: int
  live_pools :: int
  peak_pools :: int
  ring_operations :: int

record state =
  heap :: "addr \<rightharpoonup> pool"
  pools :: addr
  full_pools :: addr
  is_setup :: bool
  stats :: stats
  ref_table :: "addr list"
  stderr :: "string list"
  scanned :: "addr list"
  page_supply :: "(addr \<times> pool) list"

record env =
  BOXROOT_DEBUG :: bool
  Is_young :: "val \<Rightarrow> bool"

datatype error = Null_deref | Invalid_pointer | Assertion_failed

datatype free_list = Major | Minor

definition ebind :: "error + 'a \<Rightarrow> ('a \<Rightarrow> error + 'b) \<Rightarrow> error + 'b" where
  "ebind m f = (case m of Inl e \<Rightarrow> Inl e | Inr x \<Rightarrow> f x)"

definition assert :: "bool \<Rightarrow> error + unit" where
  "assert b = (if b then Inr () else Inl Assertion_failed)"

definition DEBUGassert :: "env \<Rightarrow> (unit \<Rightarrow> error + bool) \<Rightarrow> error + unit" where
  "DEBUGassert E c = (if BOXROOT_DEBUG E then ebind (c ()) assert else Inr ())"

subsection \<open>Memory\<close>

definition get_pool :: "state \<Rightarrow> addr \<Rightarrow> error + pool" where
  "get_pool s p =
     (if p = 0 then Inl Null_deref
      else case heap s p of Some pl \<Rightarrow> Inr pl | None \<Rightarrow> Inl Invalid_pointer)"

definition set_pool :: "addr \<Rightarrow> pool \<Rightarrow> state \<Rightarrow> state" where
  "set_pool p pl s = s\<lparr>heap := (heap s)(p \<mapsto> pl)\<rparr>"

definition slot_addr :: "addr \<Rightarrow> nat \<Rightarrow> addr" where
  "slot_addr p i = p + of_nat HEADER_SIZE + of_nat SLOT_SIZE * of_nat i"

definition slot_place :: "addr \<Rightarrow> (addr \<times> nat) option" where
  "slot_place a =
     (let p = a AND NOT (POOL_SIZE - 1); off = unat (a - p)
      in if HEADER_SIZE \<le> off \<and> off mod SLOT_SIZE = 0
         then Some (p, (off - HEADER_SIZE) div SLOT_SIZE) else None)"

definition read_slot :: "state \<Rightarrow> addr \<Rightarrow> error + 64 word" where
  "read_slot s a =
     (if a = 0 then Inl Null_deref else
      case slot_place a of
        None \<Rightarrow> Inl Invalid_pointer
      | Some (p, i) \<Rightarrow>
          (case heap s p of None \<Rightarrow> Inl Invalid_pointer | Some pl \<Rightarrow> Inr (roots pl i)))"

definition write_slot :: "addr \<Rightarrow> 64 word \<Rightarrow> state \<Rightarrow> error + state" where
  "write_slot a v s =
     (if a = 0 then Inl Null_deref else
      case slot_place a of
        None \<Rightarrow> Inl Invalid_pointer
      | Some (p, i) \<Rightarrow>
          (case heap s p of
             None \<Rightarrow> Inl Invalid_pointer
           | Some pl \<Rightarrow> Inr (set_pool p (pl\<lparr>roots := (roots pl)(i := v)\<rparr>) s)))"

definition bxr_alloc_uninitialised_pool :: "state \<Rightarrow> addr \<times> state" where
  "bxr_alloc_uninitialised_pool s =
     (case page_supply s of
        [] \<Rightarrow> (0, s)
      | (p, junk) # rest \<Rightarrow>
          if p = 0 then (0, s\<lparr>page_supply := rest\<rparr>)
          else (p, s\<lparr>page_supply := rest, heap := (heap s)(p \<mapsto> junk)\<rparr>))"

definition bxr_free_pool :: "addr \<Rightarrow> state \<Rightarrow> state" where
  "bxr_free_pool p s = s\<lparr>heap := (heap s)(p := None)\<rparr>"

definition Is_block :: "val \<Rightarrow> bool" where
  "Is_block v = (v AND 1 = 0)"

definition Is_long :: "val \<Rightarrow> bool" where
  "Is_long v = (v AND 1 \<noteq> 0)"

subsection \<open>Tests in the hot path\<close>

definition get_pool_header :: "addr \<Rightarrow> addr" where
  "get_pool_header v = v AND NOT (POOL_SIZE - 1)"

definition is_free_slot :: "64 word \<Rightarrow> addr \<Rightarrow> bool" where
  "is_free_slot v p = (p OR 1 = v AND NOT (POOL_SIZE - 2))"

definition is_empty_free_list :: "addr \<Rightarrow> addr \<Rightarrow> bool" where
  "is_empty_free_list v p = (v = p)"

definition is_young_block :: "env \<Rightarrow> val \<Rightarrow> bool" where
  "is_young_block E v = (Is_block v \<and> Is_young E v)"

definition remember :: "addr \<Rightarrow> state \<Rightarrow> state" where
  "remember a s = s\<lparr>ref_table := ref_table s @ [a]\<rparr>"

subsection \<open>Ring operations\<close>

definition bump_ring_operations :: "state \<Rightarrow> state" where
  "bump_ring_operations s =
     s\<lparr>stats := (stats s)\<lparr>ring_operations := ring_operations (stats s) + 1\<rparr>\<rparr>"

definition ring_link :: "addr \<Rightarrow> addr \<Rightarrow> state \<Rightarrow> error + state" where
  "ring_link p q s =
     ebind (get_pool s p) (\<lambda>pl.
       let s1 = set_pool p (pl\<lparr>hd_next := q\<rparr>) s in
       ebind (get_pool s1 q) (\<lambda>ql.
         Inr (bump_ring_operations (set_pool q (ql\<lparr>hd_prev := p\<rparr>) s1))))"

definition ring_push_back :: "addr \<Rightarrow> addr \<Rightarrow> state \<Rightarrow> error + addr \<times> state" where
  "ring_push_back source target s =
     (if source = 0 then Inr (target, s)
      else if target = 0 then Inr (source, s)
      else
        ebind (get_pool s target) (\<lambda>tl.
        ebind (get_pool s source) (\<lambda>sl.
          let target_last = hd_prev tl; source_last = hd_prev sl in
          ebind (ring_link target_last source s) (\<lambda>s1.
          ebind (ring_link source_last target s1) (\<lambda>s2.
            Inr (target, s2))))))"

definition ring_pop :: "addr \<Rightarrow> state \<Rightarrow> error + (addr \<times> addr) \<times> state" where
  "ring_pop target s =
     (let front = target in
      ebind (assert (front \<noteq> 0)) (\<lambda>_.
      ebind (get_pool s front) (\<lambda>fl.
        if hd_next fl = front then Inr ((front, 0), s)
        else
          ebind (ring_link (hd_prev fl) (hd_next fl) s) (\<lambda>s1.
          ebind (get_pool s1 front) (\<lambda>fl1.
          ebind (ring_link front front s1) (\<lambda>s2.
            Inr ((front, hd_next fl1), s2)))))))"

subsection \<open>Free list management\<close>

definition is_valid_free_slot :: "state \<Rightarrow> addr \<Rightarrow> error + bool" where
  "is_valid_free_slot s a =
     (let p = get_pool_header a in
      if is_empty_free_list a p then Inr True
      else ebind (read_slot s a) (\<lambda>raw. Inr (is_free_slot raw p)))"

definition untag_free_slot :: "env \<Rightarrow> state \<Rightarrow> 64 word \<Rightarrow> error + addr" where
  "untag_free_slot E s v =
     (let a = (v OR 1) - 1 in
      ebind (DEBUGassert E (\<lambda>_. is_valid_free_slot s a)) (\<lambda>_. Inr a))"

definition tag_free_slot :: "env \<Rightarrow> state \<Rightarrow> addr \<Rightarrow> error + 64 word" where
  "tag_free_slot E s a =
     ebind (DEBUGassert E (\<lambda>_. is_valid_free_slot s a)) (\<lambda>_. Inr (a OR 1))"

definition get_free_list :: "free_list \<Rightarrow> pool \<Rightarrow> addr" where
  "get_free_list w pl = (case w of Major \<Rightarrow> major_free_list pl | Minor \<Rightarrow> minor_free_list pl)"

definition set_free_list :: "free_list \<Rightarrow> addr \<Rightarrow> pool \<Rightarrow> pool" where
  "set_free_list w a pl =
     (case w of Major \<Rightarrow> pl\<lparr>major_free_list := a\<rparr> | Minor \<Rightarrow> pl\<lparr>minor_free_list := a\<rparr>)"

definition free_list_push :: "env \<Rightarrow> addr \<Rightarrow> addr \<Rightarrow> free_list \<Rightarrow> state \<Rightarrow> error + state" where
  "free_list_push E a p w s =
     ebind (get_pool s p) (\<lambda>pl.
     ebind (tag_free_slot E s (get_free_list w pl)) (\<lambda>t.
     ebind (write_slot a t s) (\<lambda>s1.
     ebind (get_pool s1 p) (\<lambda>pl1.
       Inr (set_pool p (set_free_list w a pl1) s1)))))"

definition free_list_pop :: "env \<Rightarrow> addr \<Rightarrow> free_list \<Rightarrow> state \<Rightarrow> error + addr \<times> state" where
  "free_list_pop E p w s =
     ebind (get_pool s p) (\<lambda>pl.
       let a = get_free_list w pl in
       ebind (DEBUGassert E (\<lambda>_. Inr (\<not> is_empty_free_list a (get_pool_header a)))) (\<lambda>_.
       ebind (DEBUGassert E (\<lambda>_.
                ebind (read_slot s a) (\<lambda>raw. Inr (is_free_slot raw (get_pool_header a))))) (\<lambda>_.
       ebind (read_slot s a) (\<lambda>link.
       ebind (untag_free_slot E s link) (\<lambda>nxt.
         Inr (a, set_pool p (set_free_list w nxt pl) s))))))"


subsection \<open>Pool management\<close>

definition empty_free_list :: "addr \<Rightarrow> addr" where
  "empty_free_list p = p"

definition is_full_pool :: "pool \<Rightarrow> bool" where
  "is_full_pool pl = (alloc_count pl = int POOL_ROOTS_CAPACITY)"

definition is_empty_pool :: "pool \<Rightarrow> bool" where
  "is_empty_pool pl = (alloc_count pl = 0)"

definition is_almost_full_pool :: "pool \<Rightarrow> bool" where
  "is_almost_full_pool pl = (alloc_count pl > int (POOL_ROOTS_CAPACITY * 3 div 4))"

primrec push_all_slots :: "env \<Rightarrow> addr \<Rightarrow> nat \<Rightarrow> state \<Rightarrow> error + state" where
  "push_all_slots E p 0 s = Inr s"
| "push_all_slots E p (Suc n) s =
     ebind (free_list_push E (slot_addr p n) p Major s) (push_all_slots E p n)"

definition count_live_pool :: "state \<Rightarrow> state" where
  "count_live_pool s =
     (let st = (stats s)\<lparr>live_pools := live_pools (stats s) + 1\<rparr>
      in s\<lparr>stats := (if live_pools st > peak_pools st
                       then st\<lparr>peak_pools := live_pools st\<rparr> else st)\<rparr>)"

definition count_alloced_pool :: "state \<Rightarrow> state" where
  "count_alloced_pool s =
     s\<lparr>stats := (stats s)\<lparr>total_alloced_pools := total_alloced_pools (stats s) + 1\<rparr>\<rparr>"

definition get_empty_pool :: "env \<Rightarrow> state \<Rightarrow> error + addr \<times> state" where
  "get_empty_pool E s =
     (let (p, s1) = bxr_alloc_uninitialised_pool (count_live_pool s) in
      if p = 0 then Inr (0, s1)
      else
        let s2 = count_alloced_pool s1 in
        ebind (ring_link p p s2) (\<lambda>s3.
        ebind (get_pool s3 p) (\<lambda>pl.
          let s4 = set_pool p (pl\<lparr>major_free_list := empty_free_list p,
                                   minor_free_list := empty_free_list p,
                                   last_minor_free_slot := 0,
                                   alloc_count := 0\<rparr>) s3 in
          ebind (push_all_slots E p POOL_ROOTS_CAPACITY s4) (\<lambda>s5. Inr (p, s5)))))"

partial_function (option) find_available_pool_loop :: "state \<Rightarrow> (error + state) option" where
  "find_available_pool_loop s =
     (if pools s = 0 then Some (Inr s)
      else
        (case get_pool s (pools s) of
           Inl e \<Rightarrow> Some (Inl e)
         | Inr pl \<Rightarrow>
             if \<not> is_full_pool pl then Some (Inr s)
             else
               (case ring_pop (pools s) s of
                  Inl e \<Rightarrow> Some (Inl e)
                | Inr ((front, rest), s1) \<Rightarrow>
                    (case ring_push_back front (full_pools s1) (s1\<lparr>pools := rest\<rparr>) of
                       Inl e \<Rightarrow> Some (Inl e)
                     | Inr (t, s2) \<Rightarrow> find_available_pool_loop (s2\<lparr>full_pools := t\<rparr>)))))"

definition find_available_pool :: "env \<Rightarrow> state \<Rightarrow> (error + addr \<times> state) option" where
  "find_available_pool E s =
     (case find_available_pool_loop s of
        None \<Rightarrow> None
      | Some (Inl e) \<Rightarrow> Some (Inl e)
      | Some (Inr s1) \<Rightarrow>
          Some (ebind (if pools s1 = 0
                       then ebind (get_empty_pool E s1) (\<lambda>(p, s2). Inr (s2\<lparr>pools := p\<rparr>))
                       else Inr s1) (\<lambda>s3.
                if pools s3 = 0 then Inr (0, s3)
                else
                  ebind (get_pool s3 (pools s3)) (\<lambda>pl.
                  ebind (assert (\<not> is_full_pool pl)) (\<lambda>_. Inr (pools s3, s3))))))"

definition pool_remove :: "addr \<Rightarrow> state \<Rightarrow> error + addr \<times> state" where
  "pool_remove p s =
     ebind (ring_pop p s) (\<lambda>((removed, p1), s1).
       let s2 = (if removed = pools s1 then s1\<lparr>pools := p1\<rparr> else s1);
           s3 = (if removed = full_pools s2 then s2\<lparr>full_pools := p1\<rparr> else s2)
       in Inr (removed, s3))"

definition count_freed_pool :: "state \<Rightarrow> state" where
  "count_freed_pool s =
     s\<lparr>stats := (stats s)\<lparr>total_freed_pools := total_freed_pools (stats s) + 1\<rparr>\<rparr>"

partial_function (option) free_all_pools :: "state \<Rightarrow> (error + state) option" where
  "free_all_pools s =
     (if pools s = 0 then Some (Inr s)
      else
        (case ring_pop (pools s) s of
           Inl e \<Rightarrow> Some (Inl e)
         | Inr ((p, rest), s1) \<Rightarrow>
             free_all_pools (count_freed_pool (bxr_free_pool p (s1\<lparr>pools := rest\<rparr>)))))"

subsection \<open>Allocation, deallocation\<close>

definition not_setup_message :: string where
  "not_setup_message = ''boxroot is not setup\<newline>''"

definition take_slot :: "env \<Rightarrow> bool \<Rightarrow> addr \<Rightarrow> state \<Rightarrow> error + addr \<times> state" where
  "take_slot E for_young p s =
     ebind (get_pool s p) (\<lambda>pl.
       let s1 = set_pool p (pl\<lparr>alloc_count := alloc_count pl + 1\<rparr>) s in
       if for_young then
         if \<not> is_empty_free_list (minor_free_list pl) p then free_list_pop E p Minor s1
         else
           ebind (free_list_pop E p Major s1) (\<lambda>(new_slot, s2).
             Inr (new_slot, remember new_slot s2))
       else
         if \<not> is_empty_free_list (major_free_list pl) p then free_list_pop E p Major s1
         else free_list_pop E p Minor s1)"

definition alloc_slot :: "env \<Rightarrow> bool \<Rightarrow> state \<Rightarrow> (error + addr \<times> state) option" where
  "alloc_slot E for_young s =
     (let p = pools s in
      case (if p = 0 then Inr True else ebind (get_pool s p) (\<lambda>pl. Inr (is_full_pool pl))) of
        Inl e \<Rightarrow> Some (Inl e)
      | Inr slow \<Rightarrow>
          if slow then
            if \<not> is_setup s
            then Some (Inr (0, s\<lparr>stderr := stderr s @ [not_setup_message]\<rparr>))
            else
              (case find_available_pool E s of
                 None \<Rightarrow> None
               | Some (Inl e) \<Rightarrow> Some (Inl e)
               | Some (Inr (p1, s1)) \<Rightarrow>
                   if p1 = 0 then Some (Inr (0, s1))
                   else
                     Some (ebind (get_pool s1 p1) (\<lambda>pl1.
                           ebind (assert (\<not> is_full_pool pl1)) (\<lambda>_.
                             take_slot E for_young p1 s1))))
          else Some (take_slot E for_young p s))"

definition dealloc_slot :: "env \<Rightarrow> addr \<Rightarrow> state \<Rightarrow> error + state" where
  "dealloc_slot E v s =
     (let p = get_pool_header v in
      ebind (read_slot s v) (\<lambda>full.
      ebind (if \<not> is_young_block E full then free_list_push E v p Major s
             else
               ebind (get_pool s p) (\<lambda>pl.
                 free_list_push E v p Minor
                   (if is_empty_free_list (minor_free_list pl) p
                    then set_pool p (pl\<lparr>last_minor_free_slot := v\<rparr>) s else s))) (\<lambda>s1.
      ebind (get_pool s1 p) (\<lambda>pl1.
        let pl2 = pl1\<lparr>alloc_count := alloc_count pl1 - 1\<rparr>; s2 = set_pool p pl2 s1 in
        if alloc_count pl2 = int (POOL_ROOTS_CAPACITY * 3 div 4) then
          ebind (pool_remove p s2) (\<lambda>(removed, s3).
          ebind (ring_push_back removed (pools s3) s3) (\<lambda>(t, s4).
            Inr (s4\<lparr>pools := t\<rparr>)))
        else Inr s2))))"

subsection \<open>Boxroot API implementation\<close>

definition rem_boxroot_create :: "env \<Rightarrow> val \<Rightarrow> state \<Rightarrow> (error + addr \<times> state) option" where
  "rem_boxroot_create E init s =
     (case alloc_slot E (is_young_block E init) s of
        None \<Rightarrow> None
      | Some (Inl e) \<Rightarrow> Some (Inl e)
      | Some (Inr (cell, s1)) \<Rightarrow>
          if cell = 0 then Some (Inr (0, s1))
          else Some (ebind (write_slot cell init s1) (\<lambda>s2. Inr (cell, s2))))"

definition rem_boxroot_get :: "state \<Rightarrow> addr \<Rightarrow> error + val" where
  "rem_boxroot_get s root = read_slot s root"

definition rem_boxroot_delete :: "env \<Rightarrow> addr \<Rightarrow> state \<Rightarrow> error + state" where
  "rem_boxroot_delete E root s =
     (let cell = root in
      ebind (DEBUGassert E (\<lambda>_. Inr (cell \<noteq> 0))) (\<lambda>_. dealloc_slot E cell s))"

definition rem_boxroot_modify :: "env \<Rightarrow> addr \<Rightarrow> val \<Rightarrow> state \<Rightarrow> error + addr \<times> state" where
  "rem_boxroot_modify E root new_value s =
     (let cell = root in
      ebind (DEBUGassert E (\<lambda>_. Inr (cell \<noteq> 0))) (\<lambda>_.
        if \<not> is_young_block E new_value then
          ebind (write_slot cell new_value s) (\<lambda>s1. Inr (root, s1))
        else
          ebind (read_slot s cell) (\<lambda>old_value.
          ebind (write_slot cell new_value s) (\<lambda>s1.
            Inr (root, if \<not> is_young_block E old_value then remember cell s1 else s1)))))"


subsection \<open>Scanning\<close>

definition validate_roots :: "addr \<Rightarrow> pool \<Rightarrow> int \<times> int" where
  "validate_roots p pl =
     (let free_count = int (length (filter (\<lambda>i. is_free_slot (roots pl i) p)
                                      [0..<POOL_ROOTS_CAPACITY]));
          full_count = int (length (filter (\<lambda>i. \<not> is_free_slot (roots pl i) p)
                                      [0..<POOL_ROOTS_CAPACITY]))
      in (free_count, full_count))"

partial_function (option) validate_free_list ::
    "env \<Rightarrow> addr \<Rightarrow> addr \<Rightarrow> int \<Rightarrow> state \<Rightarrow> (error + int) option" where
  "validate_free_list E p a count s =
     (if is_empty_free_list a p then Some (Inr count)
      else
        (case ebind (read_slot s a) (\<lambda>raw.
              ebind (assert (Is_long raw)) (\<lambda>_.
              ebind (assert (is_free_slot raw p)) (\<lambda>_.
                untag_free_slot E s raw))) of
           Inl e \<Rightarrow> Some (Inl e)
         | Inr nxt \<Rightarrow> validate_free_list E p nxt (count + 1) s))"

definition validate_pool :: "env \<Rightarrow> addr \<Rightarrow> state \<Rightarrow> (error + unit) option" where
  "validate_pool E p s =
     (case get_pool s p of
        Inl e \<Rightarrow> Some (Inl e)
      | Inr pl \<Rightarrow>
          (let (free_roots_count, full_roots_count) = validate_roots p pl in
           case validate_free_list E p (major_free_list pl) 0 s of
             None \<Rightarrow> None
           | Some (Inl e) \<Rightarrow> Some (Inl e)
           | Some (Inr c1) \<Rightarrow>
               (case validate_free_list E p (minor_free_list pl) c1 s of
                  None \<Rightarrow> None
                | Some (Inl e) \<Rightarrow> Some (Inl e)
                | Some (Inr free_list_count) \<Rightarrow>
                    Some (
                      ebind (if is_empty_free_list (minor_free_list pl) p then Inr ()
                             else
                               ebind (assert (last_minor_free_slot pl \<noteq> 0)) (\<lambda>_.
                               ebind (read_slot s (last_minor_free_slot pl)) (\<lambda>raw.
                                 assert (is_free_slot raw p)))) (\<lambda>_.
                      ebind (assert (free_roots_count = free_list_count)) (\<lambda>_.
                      ebind (assert (full_roots_count = alloc_count pl)) (\<lambda>_.
                        assert (free_roots_count + full_roots_count
                                  = int POOL_ROOTS_CAPACITY))))))))"

partial_function (option) validate_pool_ring_loop ::
    "env \<Rightarrow> addr \<Rightarrow> addr \<Rightarrow> state \<Rightarrow> (error + unit) option" where
  "validate_pool_ring_loop E first_pool p s =
     (case validate_pool E p s of
        None \<Rightarrow> None
      | Some (Inl e) \<Rightarrow> Some (Inl e)
      | Some (Inr _) \<Rightarrow>
          (case get_pool s p of
             Inl e \<Rightarrow> Some (Inl e)
           | Inr pl \<Rightarrow>
               if hd_next pl \<noteq> first_pool
               then validate_pool_ring_loop E first_pool (hd_next pl) s
               else Some (Inr ())))"

definition validate_pool_ring :: "env \<Rightarrow> addr \<Rightarrow> state \<Rightarrow> (error + unit) option" where
  "validate_pool_ring E first_pool s =
     (if first_pool = 0 then Some (Inr ())
      else validate_pool_ring_loop E first_pool first_pool s)"

definition validate :: "env \<Rightarrow> state \<Rightarrow> (error + unit) option" where
  "validate E s =
     (case validate_pool_ring E (pools s) s of
        None \<Rightarrow> None
      | Some (Inl e) \<Rightarrow> Some (Inl e)
      | Some (Inr _) \<Rightarrow> validate_pool_ring E (full_pools s) s)"

definition add_total_scanning_work :: "int \<Rightarrow> state \<Rightarrow> state" where
  "add_total_scanning_work n s =
     s\<lparr>stats := (stats s)\<lparr>total_scanning_work := total_scanning_work (stats s) + n\<rparr>\<rparr>"

definition add_useful_scanning_work :: "int \<Rightarrow> state \<Rightarrow> state" where
  "add_useful_scanning_work n s =
     s\<lparr>stats := (stats s)\<lparr>useful_scanning_work := useful_scanning_work (stats s) + n\<rparr>\<rparr>"

definition CALL_GC_ACTION :: "(val \<Rightarrow> addr \<Rightarrow> val) \<Rightarrow> addr \<Rightarrow> nat \<Rightarrow> state \<Rightarrow> error + state" where
  "CALL_GC_ACTION action p i s =
     ebind (get_pool s p) (\<lambda>pl.
       let a = slot_addr p i; v = action (roots pl i) a in
       Inr ((set_pool p (pl\<lparr>roots := (roots pl)(i := v)\<rparr>) s)\<lparr>scanned := scanned s @ [a]\<rparr>))"

primrec scan_pool_slots ::
    "env \<Rightarrow> (val \<Rightarrow> addr \<Rightarrow> val) \<Rightarrow> addr \<Rightarrow> nat \<Rightarrow> nat \<Rightarrow> int \<Rightarrow> state \<Rightarrow> error + state" where
  "scan_pool_slots E action p 0 current allocs_to_find s =
     ebind (assert (allocs_to_find = 0)) (\<lambda>_.
       Inr (add_total_scanning_work (int POOL_ROOTS_CAPACITY) s))"
| "scan_pool_slots E action p (Suc n) current allocs_to_find s =
     (if allocs_to_find = 0 then Inr (add_total_scanning_work (int current) s)
      else
        ebind (get_pool s p) (\<lambda>pl.
          if \<not> is_free_slot (roots pl current) p then
            ebind (DEBUGassert E (\<lambda>_. Inr (\<not> is_young_block E (roots pl current)))) (\<lambda>_.
            ebind (CALL_GC_ACTION action p current s) (\<lambda>s1.
              scan_pool_slots E action p n (Suc current) (allocs_to_find - 1) s1))
          else scan_pool_slots E action p n (Suc current) allocs_to_find s))"

definition scan_pool ::
    "env \<Rightarrow> (val \<Rightarrow> addr \<Rightarrow> val) \<Rightarrow> bool \<Rightarrow> addr \<Rightarrow> state \<Rightarrow> error + state" where
  "scan_pool E action in_minor_collection p s =
     (if in_minor_collection then
        ebind (get_pool s p) (\<lambda>pl.
          if \<not> is_empty_free_list (minor_free_list pl) p then
            ebind (assert (last_minor_free_slot pl \<noteq> 0)) (\<lambda>_.
            ebind (read_slot s (minor_free_list pl)) (\<lambda>raw.
            ebind (assert (is_free_slot raw p)) (\<lambda>_.
            ebind (read_slot s (last_minor_free_slot pl)) (\<lambda>last_link.
            ebind (untag_free_slot E s last_link) (\<lambda>last_next.
            ebind (assert (is_empty_free_list last_next p)) (\<lambda>_.
            ebind (tag_free_slot E s (major_free_list pl)) (\<lambda>t.
            ebind (write_slot (last_minor_free_slot pl) t s) (\<lambda>s1.
            ebind (get_pool s1 p) (\<lambda>pl1.
              Inr (set_pool p (pl1\<lparr>major_free_list := minor_free_list pl1,
                                    minor_free_list := empty_free_list p\<rparr>) s1))))))))))
          else Inr s)
      else
        ebind (get_pool s p) (\<lambda>pl.
          let allocs_to_find = alloc_count pl;
              s1 = add_useful_scanning_work (alloc_count pl) s
          in scan_pool_slots E action p POOL_ROOTS_CAPACITY 0 allocs_to_find s1))"

partial_function (option) scan_pool_ring_loop ::
    "env \<Rightarrow> (val \<Rightarrow> addr \<Rightarrow> val) \<Rightarrow> bool \<Rightarrow> addr \<Rightarrow> addr \<Rightarrow> state \<Rightarrow> (error + state) option" where
  "scan_pool_ring_loop E action in_minor_collection first_pool p s =
     (case scan_pool E action in_minor_collection p s of
        Inl e \<Rightarrow> Some (Inl e)
      | Inr s1 \<Rightarrow>
          (case get_pool s1 p of
             Inl e \<Rightarrow> Some (Inl e)
           | Inr pl \<Rightarrow>
               if hd_next pl \<noteq> first_pool
               then scan_pool_ring_loop E action in_minor_collection first_pool (hd_next pl) s1
               else Some (Inr s1)))"

definition scan_pool_ring ::
    "env \<Rightarrow> (val \<Rightarrow> addr \<Rightarrow> val) \<Rightarrow> bool \<Rightarrow> addr \<Rightarrow> state \<Rightarrow> (error + state) option" where
  "scan_pool_ring E action in_minor_collection first_pool s =
     (if first_pool = 0 then Some (Inr s)
      else scan_pool_ring_loop E action in_minor_collection first_pool first_pool s)"

partial_function (option) free_empty_pools_loop ::
    "addr \<Rightarrow> int \<Rightarrow> state \<Rightarrow> (error + state) option" where
  "free_empty_pools_loop p keep_empty_pools s =
     (case get_pool s p of
        Inl e \<Rightarrow> Some (Inl e)
      | Inr pl \<Rightarrow>
          (let nxt = hd_next pl in
           case (if is_empty_pool pl then
                   if keep_empty_pools > 0 then Inr (keep_empty_pools - 1, s)
                   else
                     ebind (pool_remove p s) (\<lambda>(removed, s1).
                       Inr (keep_empty_pools, count_freed_pool (bxr_free_pool removed s1)))
                 else Inr (keep_empty_pools, s)) of
             Inl e \<Rightarrow> Some (Inl e)
           | Inr (keep1, s2) \<Rightarrow>
               if nxt \<noteq> pools s2 then free_empty_pools_loop nxt keep1 s2
               else Some (Inr s2)))"

definition free_empty_pools :: "state \<Rightarrow> (error + state) option" where
  "free_empty_pools s = free_empty_pools_loop (pools s) 1 s"

definition scan_roots ::
    "env \<Rightarrow> (val \<Rightarrow> addr \<Rightarrow> val) \<Rightarrow> bool \<Rightarrow> state \<Rightarrow> (error + state) option" where
  "scan_roots E action in_minor_collection s =
     (case (if BOXROOT_DEBUG E then validate E s else Some (Inr ())) of
        None \<Rightarrow> None
      | Some (Inl e) \<Rightarrow> Some (Inl e)
      | Some (Inr _) \<Rightarrow>
     (case scan_pool_ring E action in_minor_collection (pools s) s of
        None \<Rightarrow> None
      | Some (Inl e) \<Rightarrow> Some (Inl e)
      | Some (Inr s1) \<Rightarrow>
     (case scan_pool_ring E action in_minor_collection (full_pools s1) s1 of
        None \<Rightarrow> None
      | Some (Inl e) \<Rightarrow> Some (Inl e)
      | Some (Inr s2) \<Rightarrow>
     (case free_empty_pools s2 of
        None \<Rightarrow> None
      | Some (Inl e) \<Rightarrow> Some (Inl e)
      | Some (Inr s3) \<Rightarrow>
     (case (if BOXROOT_DEBUG E then validate E s3 else Some (Inr ())) of
        None \<Rightarrow> None
      | Some (Inl e) \<Rightarrow> Some (Inl e)
      | Some (Inr _) \<Rightarrow> Some (Inr s3))))))"

subsection \<open>Statistics and hook setup\<close>

definition boxroot_used :: "state \<Rightarrow> bool" where
  "boxroot_used s = (pools s \<noteq> 0 \<or> ring_operations (stats s) > 0)"

definition count_collection :: "bool \<Rightarrow> state \<Rightarrow> state" where
  "count_collection in_minor_collection s =
     (if in_minor_collection
      then s\<lparr>stats := (stats s)\<lparr>minor_collections := minor_collections (stats s) + 1\<rparr>\<rparr>
      else s\<lparr>stats := (stats s)\<lparr>major_collections := major_collections (stats s) + 1\<rparr>\<rparr>)"

definition scanning_callback ::
    "env \<Rightarrow> (val \<Rightarrow> addr \<Rightarrow> val) \<Rightarrow> bool \<Rightarrow> state \<Rightarrow> (error + state) option" where
  "scanning_callback E action in_minor_collection s =
     (if \<not> is_setup s then Some (Inr s)
      else
        let s1 = count_collection in_minor_collection s in
        if boxroot_used s1 then scan_roots E action in_minor_collection s1
        else Some (Inr s1))"

definition empty_stats :: stats where
  "empty_stats = \<lparr>minor_collections = 0, major_collections = 0, total_scanning_work = 0,
                  useful_scanning_work = 0, total_alloced_pools = 0, total_freed_pools = 0,
                  live_pools = 0, peak_pools = 0, ring_operations = 0\<rparr>"

definition rem_boxroot_setup :: "state \<Rightarrow> int \<times> state" where
  "rem_boxroot_setup s =
     (if is_setup s then (0, s)
      else (1, s\<lparr>stats := empty_stats, pools := 0, full_pools := 0, is_setup := True\<rparr>))"

definition rem_boxroot_teardown :: "state \<Rightarrow> (error + state) option" where
  "rem_boxroot_teardown s =
     (if \<not> is_setup s then Some (Inr s)
      else free_all_pools (s\<lparr>is_setup := False\<rparr>))"


subsection \<open>Sequences of API calls\<close>

fun create_all :: "env \<Rightarrow> val list \<Rightarrow> state \<Rightarrow> (error + addr list \<times> state) option" where
  "create_all E [] s = Some (Inr ([], s))"
| "create_all E (v # vs) s =
     (case rem_boxroot_create E v s of
        None \<Rightarrow> None
      | Some (Inl e) \<Rightarrow> Some (Inl e)
      | Some (Inr (h, s1)) \<Rightarrow>
          (case create_all E vs s1 of
             None \<Rightarrow> None
           | Some (Inl e) \<Rightarrow> Some (Inl e)
           | Some (Inr (hs, s2)) \<Rightarrow> Some (Inr (h # hs, s2))))"

fun delete_all :: "env \<Rightarrow> addr list \<Rightarrow> state \<Rightarrow> error + state" where
  "delete_all E [] s = Inr s"
| "delete_all E (h # hs) s = ebind (rem_boxroot_delete E h s) (delete_all E hs)"

fun modify_all :: "env \<Rightarrow> addr \<Rightarrow> val list \<Rightarrow> state \<Rightarrow> error + addr \<times> state" where
  "modify_all E root [] s = Inr (root, s)"
| "modify_all E root (v # vs) s =
     ebind (rem_boxroot_modify E root v s) (\<lambda>(root1, s1). modify_all E root1 vs s1)"

definition initial_state :: "(addr \<times> pool) list \<Rightarrow> state" where
  "initial_state supply_list =
     \<lparr>heap = Map.empty, pools = 0, full_pools = 0, is_setup = False, stats = empty_stats,
      ref_table = [], stderr = [], scanned = [], page_supply = supply_list\<rparr>"


subsection \<open>The allocation policy in the words of the specification\<close>


definition other_list :: "free_list \<Rightarrow> free_list" where
  "other_list w = (case w of Major \<Rightarrow> Minor | Minor \<Rightarrow> Major)"

subsection \<open>Rings and the minor-collection splice in the words of the specification\<close>

text \<open>
  \<open>ring_seg nx first p ps\<close>: following the \<open>next\<close> links \<open>nx\<close> from the pool \<open>p\<close> until the
  link leads back to \<open>first\<close> visits exactly the pools \<open>ps\<close>, in this order.
  \<open>ring_of s first ps\<close>: the ring whose head pointer is \<open>first\<close> consists of the pools
  \<open>ps\<close> (none when the head pointer is null).
\<close>

primrec ring_seg :: "(addr \<Rightarrow> addr option) \<Rightarrow> addr \<Rightarrow> addr \<Rightarrow> addr list \<Rightarrow> bool" where
  "ring_seg nx first p [] = False"
| "ring_seg nx first p (q # qs) =
     (q = p \<and> p \<noteq> 0 \<and>
      (case nx p of
         None \<Rightarrow> False
       | Some n \<Rightarrow> if n = first then qs = [] else ring_seg nx first n qs))"

definition next_of :: "state \<Rightarrow> addr \<Rightarrow> addr option" where
  "next_of s p = map_option hd_next (heap s p)"

definition ring_of :: "state \<Rightarrow> addr \<Rightarrow> addr list \<Rightarrow> bool" where
  "ring_of s first ps = (if first = 0 then ps = [] else ring_seg (next_of s) first first ps)"

text \<open>
  The splice of the specification, on one pool: if the minor free list is non-empty,
  the cell the stored tail pointer addresses is made to link to the head of the major
  free list, the major list's head becomes the minor list's head, and the minor list
  becomes empty (the pool's own address). A pool with an empty minor list is left as
  it is.
\<close>

definition splice :: "addr \<Rightarrow> state \<Rightarrow> state" where
  "splice p s =
     (case heap s p of
        None \<Rightarrow> s
      | Some pl \<Rightarrow>
          if minor_free_list pl = p then s
          else
            (case write_slot (last_minor_free_slot pl) (major_free_list pl OR 1) s of
               Inl e \<Rightarrow> s
             | Inr s1 \<Rightarrow>
                 (case heap s1 p of
                    None \<Rightarrow> s1
                  | Some pl1 \<Rightarrow>
                      set_pool p (pl1\<lparr>major_free_list := minor_free_list pl1,
                                       minor_free_list := p\<rparr>) s1)))"


subsection \<open>The major scan in the words of the specification\<close>







text \<open>
  What a scan of the pools \<open>A\<close> may change: the contents of the slots of the pools in
  \<open>A\<close>, the record of visited slots and the statistics.
\<close>

definition scan_frame :: "addr set \<Rightarrow> state \<Rightarrow> state \<Rightarrow> bool" where
  "scan_frame A s s' =
     (ref_table s' = ref_table s \<and> stderr s' = stderr s \<and> is_setup s' = is_setup s \<and>
      pools s' = pools s \<and> full_pools s' = full_pools s \<and> page_supply s' = page_supply s \<and>
      (\<forall>q. q \<notin> A \<longrightarrow> heap s' q = heap s q) \<and>
      (\<forall>q. case heap s q of
             None \<Rightarrow> heap s' q = None
           | Some pl \<Rightarrow> (\<exists>r. heap s' q = Some (pl\<lparr>roots := r\<rparr>))))"

subsection \<open>What the pool machinery leaves alone\<close>

definition kept :: "state \<Rightarrow> state \<Rightarrow> bool" where
  "kept s s' =
     (ref_table s' = ref_table s \<and> stderr s' = stderr s \<and> scanned s' = scanned s \<and>
      is_setup s' = is_setup s \<and>
      total_scanning_work (stats s') = total_scanning_work (stats s) \<and>
      useful_scanning_work (stats s') = useful_scanning_work (stats s))"

subsection \<open>Well-formed pools\<close>

text \<open>
  The page allocator returns pools aligned on their size. In a pool freshly built by
  \<open>get_empty_pool\<close> every slot is on the major free list, slot \<open>i\<close> linking to slot
  \<open>i + 1\<close> and the last one to the pool itself.
\<close>

definition pool_aligned :: "addr \<Rightarrow> bool" where
  "pool_aligned p = (p AND (POOL_SIZE - 1) = 0)"

definition slot_off :: "nat \<Rightarrow> addr" where
  "slot_off i = of_nat (HEADER_SIZE + SLOT_SIZE * i)"

definition next_free :: "addr \<Rightarrow> nat \<Rightarrow> addr" where
  "next_free p i = (if Suc i < POOL_ROOTS_CAPACITY then slot_addr p (Suc i) else p)"

definition fresh_pool :: "addr \<Rightarrow> pool \<Rightarrow> pool" where
  "fresh_pool p junk =
     \<lparr>hd_prev = p, hd_next = p, major_free_list = slot_addr p 0, minor_free_list = p,
      last_minor_free_slot = 0, alloc_count = 0,
      roots = (\<lambda>i. if i < POOL_ROOTS_CAPACITY then next_free p i OR 1 else roots junk i)\<rparr>"

definition filled_pool :: "addr \<Rightarrow> pool \<Rightarrow> val list \<Rightarrow> pool" where
  "filled_pool p junk vs =
     (fresh_pool p junk)
       \<lparr>major_free_list := (if length vs < POOL_ROOTS_CAPACITY then slot_addr p (length vs) else p),
        alloc_count := int (length vs),
        roots := (\<lambda>i. if i < length vs then vs ! i else roots (fresh_pool p junk) i)\<rparr>"

definition remember_if :: "bool \<Rightarrow> addr \<Rightarrow> state \<Rightarrow> state" where
  "remember_if b a s = (if b then remember a s else s)"

definition pool_added :: "addr \<Rightarrow> pool \<Rightarrow> state \<Rightarrow> state" where
  "pool_added p pl s =
     (set_pool p pl
        (bump_ring_operations
           (count_alloced_pool ((count_live_pool s)\<lparr>page_supply := tl (page_supply s)\<rparr>))))
       \<lparr>pools := p\<rparr>"

definition valid_link :: "state \<Rightarrow> addr \<Rightarrow> addr \<Rightarrow> bool" where
  "valid_link s p a =
     (a = p \<or> (\<exists>j pl. j < POOL_ROOTS_CAPACITY \<and> a = slot_addr p j \<and> heap s p = Some pl \<and>
                       is_free_slot (roots pl j) p))"

subsection \<open>A concrete runtime for the examples\<close>

text \<open>
  A release build whose nursery occupies the addresses from \<open>0x100000\<close> up to
  \<open>0x200000\<close>, and a scanning action that forwards every block it is shown by
  \<open>0x800000\<close> and leaves immediates alone.
\<close>

definition zero_pool :: pool where
  "zero_pool = \<lparr>hd_prev = 0, hd_next = 0, major_free_list = 0, minor_free_list = 0,
                 last_minor_free_slot = 0, alloc_count = 0, roots = (\<lambda>i. 0)\<rparr>"

definition example_env :: env where
  "example_env = \<lparr>BOXROOT_DEBUG = False, Is_young = (\<lambda>v. 0x100000 < v \<and> v < 0x200000)\<rparr>"

definition example_action :: "val \<Rightarrow> addr \<Rightarrow> val" where
  "example_action v a = (if Is_block v then v + 0x800000 else v)"

section \<open>Verified properties\<close>

subsection \<open>Address arithmetic\<close>

lemma POOL_SIZE_eq: "POOL_SIZE = 2 ^ 14"
  by (simp add: POOL_SIZE_def POOL_LOG_SIZE_def)

lemma POOL_SIZE_mask: "POOL_SIZE - 1 = mask 14"
  by (simp add: POOL_SIZE_eq mask_eq_exp_minus_1)

lemma POOL_SIZE_mask2: "POOL_SIZE - 2 = mask 14 AND NOT 1"
  by (simp add: POOL_SIZE_eq mask_eq_exp_minus_1)

lemma CAP_eq: "POOL_ROOTS_CAPACITY = 2042"
  by (simp add: POOL_ROOTS_CAPACITY_def POOL_SIZE_eq HEADER_SIZE_def SLOT_SIZE_def)

lemma pool_aligned_bit:
  assumes "pool_aligned p" "n < 14"
  shows "\<not> bit p n"
proof -
  have "bit (p AND mask 14) n = bit (0::addr) n"
    using assms(1) by (simp only: pool_aligned_def POOL_SIZE_mask)
  then show ?thesis using assms(2) by (simp add: bit_simps)
qed

lemma small_bit: "(off::addr) < 2 ^ 14 \<Longrightarrow> bit off n \<Longrightarrow> n < 14"
  using less_mask_eq[of off 14]
  by (metis bit_take_bit_iff take_bit_eq_mask)

lemma aligned_add_or:
  assumes "pool_aligned p" "off < 2 ^ 14"
  shows "p + off = p OR off"
  by (rule disjunctive_add_eq_or, rule bit_eqI)
     (use pool_aligned_bit[OF assms(1)] small_bit[OF assms(2)] in \<open>auto simp add: bit_simps\<close>)

lemma get_pool_header_add:
  assumes "pool_aligned p" "off < 2 ^ 14"
  shows "get_pool_header (p + off) = p"
  unfolding get_pool_header_def POOL_SIZE_mask aligned_add_or[OF assms]
  by (rule bit_eqI)
     (use pool_aligned_bit[OF assms(1)] small_bit[OF assms(2)] in \<open>auto simp add: bit_simps\<close>)

lemma tag_untag: "even (a::addr) \<Longrightarrow> (a OR 1) - 1 = a"
proof -
  assume e: "even a"
  have "a + 1 = a OR 1"
    by (rule disjunctive_add_eq_or, rule bit_eqI) (use e in \<open>auto simp add: bit_simps bit_0\<close>)
  then show ?thesis by (metis add_diff_cancel_right')
qed

lemma is_free_slot_tag:
  assumes "pool_aligned p" "off < 2 ^ 14" "even off"
  shows "is_free_slot ((p + off) OR 1) p"
  unfolding is_free_slot_def POOL_SIZE_mask2 aligned_add_or[OF assms(1,2)]
  by (rule bit_eqI)
     (use pool_aligned_bit[OF assms(1)] small_bit[OF assms(2)] assms(3) in
       \<open>auto simp add: bit_simps bit_0\<close>)

lemma slot_off_unat: "i < POOL_ROOTS_CAPACITY \<Longrightarrow> unat (slot_off i) = HEADER_SIZE + SLOT_SIZE * i"
  unfolding slot_off_def
  by (rule of_nat_inverse[OF refl]) (simp add: CAP_eq HEADER_SIZE_def SLOT_SIZE_def)

lemma slot_off_less: "i < POOL_ROOTS_CAPACITY \<Longrightarrow> slot_off i < 2 ^ 14"
  by (simp add: word_less_nat_alt slot_off_unat) (simp add: CAP_eq HEADER_SIZE_def SLOT_SIZE_def)

lemma slot_addr_off: "slot_addr p i = p + slot_off i"
  by (simp add: slot_addr_def slot_off_def)

lemma slot_off_even: "even (slot_off i)"
  by (simp add: slot_off_def HEADER_SIZE_def SLOT_SIZE_def)

lemma slot_off_neq0: "i < POOL_ROOTS_CAPACITY \<Longrightarrow> slot_off i \<noteq> 0"
  using slot_off_unat[of i] by (auto simp: HEADER_SIZE_def)


subsection \<open>Slot addresses\<close>

lemma slot_addr_header:
  "pool_aligned p \<Longrightarrow> i < POOL_ROOTS_CAPACITY \<Longrightarrow> get_pool_header (slot_addr p i) = p"
  by (simp only: slot_addr_off get_pool_header_add slot_off_less)


lemma slot_addr_neq_base:
  "i < POOL_ROOTS_CAPACITY \<Longrightarrow> slot_addr p i \<noteq> p"
  using slot_off_neq0[of i] by (simp add: slot_addr_off)

lemma slot_addr_neq0:
  assumes "pool_aligned p" "i < POOL_ROOTS_CAPACITY"
  shows "slot_addr p i \<noteq> 0"
proof
  assume z: "slot_addr p i = 0"
  have "get_pool_header (slot_addr p i) = p" by (rule slot_addr_header[OF assms])
  then have "p = 0" by (simp add: z get_pool_header_def)
  with z slot_addr_neq_base[OF assms(2), of p] show False by simp
qed

lemma slot_place_slot_addr:
  assumes "pool_aligned p" "i < POOL_ROOTS_CAPACITY"
  shows "slot_place (slot_addr p i) = Some (p, i)"
proof -
  have h: "slot_addr p i AND NOT (POOL_SIZE - 1) = p"
    using slot_addr_header[OF assms] by (simp add: get_pool_header_def)
  have o: "unat (slot_addr p i - p) = HEADER_SIZE + SLOT_SIZE * i"
    by (simp add: slot_addr_off slot_off_unat[OF assms(2)])
  show ?thesis
    unfolding slot_place_def h Let_def o by (simp add: SLOT_SIZE_def HEADER_SIZE_def)
qed

lemma slot_place_sound:
  assumes "slot_place a = Some (p, i)"
  shows "a = slot_addr p i \<and> pool_aligned p \<and> i < POOL_ROOTS_CAPACITY \<and> get_pool_header a = p"
proof -
  let ?off = "unat (a - p)"
  from assms have p: "p = a AND NOT (POOL_SIZE - 1)"
    and ge: "HEADER_SIZE \<le> ?off" and md: "?off mod SLOT_SIZE = 0"
    and i: "i = (?off - HEADER_SIZE) div SLOT_SIZE"
    by (auto simp: slot_place_def Let_def split: if_splits)
  have al: "pool_aligned p"
    unfolding pool_aligned_def p POOL_SIZE_mask
    by (rule bit_eqI) (auto simp add: bit_simps)
  have "(a AND NOT (mask 14)) + (a AND mask 14) = (a AND NOT (mask 14)) OR (a AND mask 14)"
    by (rule disjunctive_add_eq_or, rule bit_eqI) (auto simp add: bit_simps)
  also have "\<dots> = a"
    by (rule bit_eqI) (auto simp add: bit_simps)
  finally have am: "a - p = a AND mask 14"
    unfolding p POOL_SIZE_mask by (metis add_diff_cancel_left')
  have "a AND mask 14 < 2 ^ 14"
    by (rule and_mask_less') simp
  then have lt: "?off < 2 ^ 14"
    unfolding am by (simp add: word_less_nat_alt)
  have offeq: "?off = HEADER_SIZE + SLOT_SIZE * i"
    using ge md unfolding i SLOT_SIZE_def HEADER_SIZE_def by presburger
  have il: "i < POOL_ROOTS_CAPACITY"
    using lt offeq by (simp add: CAP_eq HEADER_SIZE_def SLOT_SIZE_def)
  have "a - p = slot_off i"
    unfolding slot_off_def offeq[symmetric] by simp
  then have a: "a = slot_addr p i"
    by (simp add: slot_addr_off algebra_simps)
  show ?thesis using a al il p by (simp add: get_pool_header_def)
qed

subsection \<open>Reading and writing slots\<close>

lemma ebind_Inr_iff: "ebind m f = Inr y \<longleftrightarrow> (\<exists>x. m = Inr x \<and> f x = Inr y)"
  by (cases m) (simp_all add: ebind_def)

lemma ebind_simps [simp]: "ebind (Inl e) f = Inl e" "ebind (Inr x) f = f x"
  by (simp_all add: ebind_def)

lemma read_slot_Inr_iff:
  "read_slot s a = Inr v \<longleftrightarrow>
     (\<exists>p i pl. a \<noteq> 0 \<and> slot_place a = Some (p, i) \<and> heap s p = Some pl \<and> v = roots pl i)"
  by (auto simp: read_slot_def split: option.splits)

lemma write_slot_Inr_iff:
  "write_slot a v s = Inr s' \<longleftrightarrow>
     (\<exists>p i pl. a \<noteq> 0 \<and> slot_place a = Some (p, i) \<and> heap s p = Some pl \<and>
        s' = set_pool p (pl\<lparr>roots := (roots pl)(i := v)\<rparr>) s)"
  by (auto simp: write_slot_def split: option.splits)

lemma slot_place_inj:
  "slot_place a = Some x \<Longrightarrow> slot_place b = Some x \<Longrightarrow> a = b"
  by (cases x) (metis slot_place_sound)

lemma write_slot_ok:
  "read_slot s a = Inr v0 \<Longrightarrow> \<exists>s'. write_slot a v s = Inr s'"
  by (auto simp: read_slot_Inr_iff write_slot_Inr_iff)

lemma read_write_same:
  "write_slot a v s = Inr s' \<Longrightarrow> read_slot s' a = Inr v"
  by (auto simp: read_slot_Inr_iff write_slot_Inr_iff set_pool_def)

lemma read_write_other:
  assumes "write_slot a v s = Inr s'" "b \<noteq> a"
  shows "read_slot s' b = read_slot s b"
proof -
  from assms(1) obtain p i pl where a: "slot_place a = Some (p, i)" "heap s p = Some pl"
    and s': "s' = set_pool p (pl\<lparr>roots := (roots pl)(i := v)\<rparr>) s"
    by (auto simp: write_slot_Inr_iff)
  show ?thesis
  proof (cases "slot_place b")
    case None
    then show ?thesis by (simp add: read_slot_def)
  next
    case (Some qj)
    obtain q j where qj: "qj = (q, j)" by (cases qj)
    have "\<not> (q = p \<and> j = i)"
      using slot_place_inj[of a "(p, i)" b] a(1) Some qj assms(2) by auto
    then show ?thesis
      using Some qj a(2) by (auto simp: read_slot_def s' set_pool_def)
  qed
qed


lemma modify_step:
  assumes "read_slot s h = Inr v0"
  shows "\<exists>s'. rem_boxroot_modify E h v s = Inr (h, s') \<and> read_slot s' h = Inr v \<and>
          (\<forall>a. a \<noteq> h \<longrightarrow> read_slot s' a = read_slot s a)"
proof -
  from write_slot_ok[OF assms] obtain s1 where w: "write_slot h v s = Inr s1" by blast
  have nz: "h \<noteq> 0" using assms by (auto simp: read_slot_Inr_iff)
  have r: "read_slot s1 h = Inr v" by (rule read_write_same[OF w])
  have o: "\<forall>a. a \<noteq> h \<longrightarrow> read_slot s1 a = read_slot s a"
    using read_write_other[OF w] by blast
  have rem: "read_slot (remember h s1) b = read_slot s1 b" for b
    by (simp add: read_slot_def remember_def split: option.splits)
  show ?thesis
    using nz assms w r o
    by (auto simp: rem_boxroot_modify_def DEBUGassert_def assert_def rem)
qed


subsection \<open>Counters and other fields\<close>

lemma counters_fields [simp]:
  "heap (bump_ring_operations s) = heap s" "pools (bump_ring_operations s) = pools s"
  "full_pools (bump_ring_operations s) = full_pools s"
  "is_setup (bump_ring_operations s) = is_setup s"
  "ref_table (bump_ring_operations s) = ref_table s" "stderr (bump_ring_operations s) = stderr s"
  "scanned (bump_ring_operations s) = scanned s"
  "page_supply (bump_ring_operations s) = page_supply s"
  "heap (count_live_pool s) = heap s" "pools (count_live_pool s) = pools s"
  "full_pools (count_live_pool s) = full_pools s" "is_setup (count_live_pool s) = is_setup s"
  "ref_table (count_live_pool s) = ref_table s" "stderr (count_live_pool s) = stderr s"
  "scanned (count_live_pool s) = scanned s" "page_supply (count_live_pool s) = page_supply s"
  "heap (count_alloced_pool s) = heap s" "pools (count_alloced_pool s) = pools s"
  "full_pools (count_alloced_pool s) = full_pools s"
  "is_setup (count_alloced_pool s) = is_setup s"
  "ref_table (count_alloced_pool s) = ref_table s" "stderr (count_alloced_pool s) = stderr s"
  "scanned (count_alloced_pool s) = scanned s"
  "page_supply (count_alloced_pool s) = page_supply s"
  "heap (count_freed_pool s) = heap s" "pools (count_freed_pool s) = pools s"
  "full_pools (count_freed_pool s) = full_pools s" "is_setup (count_freed_pool s) = is_setup s"
  "ref_table (count_freed_pool s) = ref_table s" "stderr (count_freed_pool s) = stderr s"
  "scanned (count_freed_pool s) = scanned s" "page_supply (count_freed_pool s) = page_supply s"
  by (simp_all add: bump_ring_operations_def count_live_pool_def count_alloced_pool_def
      count_freed_pool_def Let_def)

lemma set_pool_fields [simp]:
  "heap (set_pool p pl s) = (heap s)(p \<mapsto> pl)" "pools (set_pool p pl s) = pools s"
  "full_pools (set_pool p pl s) = full_pools s" "is_setup (set_pool p pl s) = is_setup s"
  "ref_table (set_pool p pl s) = ref_table s" "stderr (set_pool p pl s) = stderr s"
  "scanned (set_pool p pl s) = scanned s" "page_supply (set_pool p pl s) = page_supply s"
  "stats (set_pool p pl s) = stats s"
  by (simp_all add: set_pool_def)

lemma remember_fields [simp]:
  "heap (remember a s) = heap s" "pools (remember a s) = pools s"
  "full_pools (remember a s) = full_pools s" "is_setup (remember a s) = is_setup s"
  "ref_table (remember a s) = ref_table s @ [a]" "stderr (remember a s) = stderr s"
  "scanned (remember a s) = scanned s" "page_supply (remember a s) = page_supply s"
  "stats (remember a s) = stats s"
  by (simp_all add: remember_def)

lemma remember_if_fields [simp]:
  "heap (remember_if b a s) = heap s" "pools (remember_if b a s) = pools s"
  "full_pools (remember_if b a s) = full_pools s" "is_setup (remember_if b a s) = is_setup s"
  "ref_table (remember_if b a s) = (if b then ref_table s @ [a] else ref_table s)"
  "stderr (remember_if b a s) = stderr s"
  "scanned (remember_if b a s) = scanned s" "page_supply (remember_if b a s) = page_supply s"
  "stats (remember_if b a s) = stats s"
  by (simp_all add: remember_if_def)

lemma pool_added_fields [simp]:
  "heap (pool_added p pl s) = (heap s)(p \<mapsto> pl)" "pools (pool_added p pl s) = p"
  "full_pools (pool_added p pl s) = full_pools s" "is_setup (pool_added p pl s) = is_setup s"
  "ref_table (pool_added p pl s) = ref_table s" "stderr (pool_added p pl s) = stderr s"
  "scanned (pool_added p pl s) = scanned s"
  "page_supply (pool_added p pl s) = tl (page_supply s)"
  by (simp_all add: pool_added_def)

lemma get_pool_header_base: "pool_aligned p \<Longrightarrow> get_pool_header p = p"
  using get_pool_header_add[of p 0] by simp

lemma read_slot_slot_addr:
  "pool_aligned p \<Longrightarrow> i < POOL_ROOTS_CAPACITY \<Longrightarrow> heap s p = Some pl \<Longrightarrow>
   read_slot s (slot_addr p i) = Inr (roots pl i)"
  by (simp add: read_slot_def slot_place_slot_addr slot_addr_neq0)

lemma write_slot_slot_addr:
  "pool_aligned p \<Longrightarrow> i < POOL_ROOTS_CAPACITY \<Longrightarrow> heap s p = Some pl \<Longrightarrow>
   write_slot (slot_addr p i) v s = Inr (set_pool p (pl\<lparr>roots := (roots pl)(i := v)\<rparr>) s)"
  by (simp add: write_slot_def slot_place_slot_addr slot_addr_neq0)

lemma get_pool_Some: "p \<noteq> 0 \<Longrightarrow> heap s p = Some pl \<Longrightarrow> get_pool s p = Inr pl"
  by (simp add: get_pool_def)

lemma get_pool_Inr_iff: "get_pool s p = Inr pl \<longleftrightarrow> p \<noteq> 0 \<and> heap s p = Some pl"
  by (auto simp: get_pool_def split: option.splits)

lemma is_valid_free_slot_link:
  "pool_aligned p \<Longrightarrow> valid_link s p a \<Longrightarrow> is_valid_free_slot s a = Inr True"
  unfolding valid_link_def is_valid_free_slot_def Let_def is_empty_free_list_def
  by (auto simp: get_pool_header_base slot_addr_header read_slot_slot_addr)

lemma tag_free_slot_link:
  "pool_aligned p \<Longrightarrow> valid_link s p a \<Longrightarrow> tag_free_slot E s a = Inr (a OR 1)"
  by (simp add: tag_free_slot_def DEBUGassert_def is_valid_free_slot_link assert_def)

lemma untag_free_slot_link:
  "pool_aligned p \<Longrightarrow> valid_link s p ((v OR 1) - 1) \<Longrightarrow>
   untag_free_slot E s v = Inr ((v OR 1) - 1)"
  by (simp add: untag_free_slot_def DEBUGassert_def is_valid_free_slot_link assert_def Let_def)

lemma free_list_push_slot:
  assumes "pool_aligned p" "p \<noteq> 0" "heap s p = Some pl" "i < POOL_ROOTS_CAPACITY"
    and "valid_link s p (get_free_list w pl)"
  shows "free_list_push E (slot_addr p i) p w s =
           Inr (set_pool p (set_free_list w (slot_addr p i)
                  (pl\<lparr>roots := (roots pl)(i := get_free_list w pl OR 1)\<rparr>)) s)"
  using assms
  by (simp add: free_list_push_def get_pool_Some tag_free_slot_link write_slot_slot_addr
      set_pool_def)

lemma even_base: "pool_aligned p \<Longrightarrow> even p"
  using pool_aligned_bit[of p 0] by (simp add: bit_0)

lemma even_slot_addr: "pool_aligned p \<Longrightarrow> even (slot_addr p i)"
  by (simp add: slot_addr_off even_base slot_off_even)

lemma is_free_slot_tag_base: "pool_aligned p \<Longrightarrow> is_free_slot (p OR 1) p"
  using is_free_slot_tag[of p 0] by simp

lemma is_free_slot_tag_slot:
  "pool_aligned p \<Longrightarrow> i < POOL_ROOTS_CAPACITY \<Longrightarrow> is_free_slot (slot_addr p i OR 1) p"
  using is_free_slot_tag[OF _ slot_off_less slot_off_even, of p i] by (simp add: slot_addr_off)

lemma is_free_slot_next_free: "pool_aligned p \<Longrightarrow> is_free_slot (next_free p i OR 1) p"
  by (simp add: next_free_def is_free_slot_tag_base is_free_slot_tag_slot)

lemma untag_next_free: "pool_aligned p \<Longrightarrow> ((next_free p i OR 1) OR 1) - 1 = next_free p i"
  by (simp add: next_free_def tag_untag even_base even_slot_addr or.assoc)

lemma untag_tag_next_free: "pool_aligned p \<Longrightarrow> (next_free p i OR 1) - 1 = next_free p i"
  by (simp add: next_free_def tag_untag even_base even_slot_addr)

lemma push_all_slots_fresh:
  assumes al: "pool_aligned p" and nz: "p \<noteq> 0"
  shows "k \<le> POOL_ROOTS_CAPACITY \<Longrightarrow> heap s p = Some pl \<Longrightarrow>
     major_free_list pl = (if k < POOL_ROOTS_CAPACITY then slot_addr p k else p) \<Longrightarrow>
     (\<forall>i. k \<le> i \<and> i < POOL_ROOTS_CAPACITY \<longrightarrow> roots pl i = next_free p i OR 1) \<Longrightarrow>
     push_all_slots E p k s =
       Inr (set_pool p (pl\<lparr>major_free_list := (if 0 < POOL_ROOTS_CAPACITY then slot_addr p 0 else p),
                          roots := (\<lambda>i. if i < POOL_ROOTS_CAPACITY then next_free p i OR 1
                                        else roots pl i)\<rparr>) s)"
proof (induction k arbitrary: s pl)
  case 0
  have "roots pl = (\<lambda>i. if i < POOL_ROOTS_CAPACITY then next_free p i OR 1 else roots pl i)"
    using 0 by auto
  then have "pl = pl\<lparr>major_free_list := (if 0 < POOL_ROOTS_CAPACITY then slot_addr p 0 else p),
                      roots := (\<lambda>i. if i < POOL_ROOTS_CAPACITY then next_free p i OR 1
                                        else roots pl i)\<rparr>"
    using 0 by simp
  moreover have "set_pool p pl s = s"
    using 0 by (simp add: set_pool_def fun_upd_idem)
  ultimately show ?case by (metis push_all_slots.simps(1))
next
  case (Suc k)
  have kl: "k < POOL_ROOTS_CAPACITY" using Suc.prems by simp
  have vl: "valid_link s p (get_free_list Major pl)"
    using Suc.prems is_free_slot_next_free[OF al]
    by (auto simp: valid_link_def get_free_list_def)
  let ?pl1 = "set_free_list Major (slot_addr p k)
                  (pl\<lparr>roots := (roots pl)(k := get_free_list Major pl OR 1)\<rparr>)"
  let ?s1 = "set_pool p ?pl1 s"
  have push: "free_list_push E (slot_addr p k) p Major s = Inr ?s1"
    by (rule free_list_push_slot[OF al nz Suc.prems(2) kl vl])
  have h1: "heap ?s1 p = Some ?pl1" by (simp add: set_pool_def)
  have m1: "major_free_list ?pl1 = (if k < POOL_ROOTS_CAPACITY then slot_addr p k else p)"
    using kl by (simp add: set_free_list_def)
  have r1: "\<forall>i. k \<le> i \<and> i < POOL_ROOTS_CAPACITY \<longrightarrow> roots ?pl1 i = next_free p i OR 1"
    using Suc.prems kl by (auto simp: set_free_list_def get_free_list_def next_free_def)
  have k': "k \<le> POOL_ROOTS_CAPACITY" using kl by simp
  have "push_all_slots E p (Suc k) s = push_all_slots E p k ?s1"
    by (simp add: push)
  also note Suc.IH[OF k' h1 m1 r1]
  finally show ?case
    using Suc.prems kl
    by (simp add: set_pool_def set_free_list_def get_free_list_def fun_eq_iff next_free_def
        cong: if_cong)
qed


lemma get_empty_pool_fresh:
  assumes "page_supply s = (p, junk) # rest" "p \<noteq> 0" "pool_aligned p"
  shows "get_empty_pool E s =
     Inr (p, set_pool p (fresh_pool p junk)
               (bump_ring_operations (count_alloced_pool ((count_live_pool s)\<lparr>page_supply := rest\<rparr>))))"
proof -
  let ?s2 = "count_alloced_pool ((count_live_pool s)\<lparr>page_supply := rest, heap := (heap s)(p \<mapsto> junk)\<rparr>)"
  have a: "bxr_alloc_uninitialised_pool (count_live_pool s) =
       (p, (count_live_pool s)\<lparr>page_supply := rest, heap := (heap s)(p \<mapsto> junk)\<rparr>)"
    using assms by (simp add: bxr_alloc_uninitialised_pool_def count_live_pool_def Let_def)
  let ?pl3 = "junk\<lparr>hd_next := p, hd_prev := p\<rparr>"
  let ?s3 = "bump_ring_operations (set_pool p ?pl3 ?s2)"
  have l: "ring_link p p ?s2 = Inr ?s3"
    using assms(2)
    by (simp add: ring_link_def get_pool_def count_alloced_pool_def set_pool_def Let_def)
  let ?pl4 = "?pl3\<lparr>major_free_list := empty_free_list p, minor_free_list := empty_free_list p,
                     last_minor_free_slot := 0, alloc_count := 0\<rparr>"
  let ?s4 = "set_pool p ?pl4 ?s3"
  have g: "get_pool ?s3 p = Inr ?pl3"
    using assms(2) by (simp add: get_pool_def bump_ring_operations_def set_pool_def)
  have h4: "heap ?s4 p = Some ?pl4" by (simp add: set_pool_def)
  have pu: "push_all_slots E p POOL_ROOTS_CAPACITY ?s4 =
       Inr (set_pool p (?pl4\<lparr>major_free_list := (if 0 < POOL_ROOTS_CAPACITY then slot_addr p 0 else p),
                          roots := (\<lambda>i. if i < POOL_ROOTS_CAPACITY then next_free p i OR 1
                                        else roots ?pl4 i)\<rparr>) ?s4)"
    by (rule push_all_slots_fresh[OF assms(3,2) _ h4]) (auto simp add: empty_free_list_def)
  show ?thesis
    unfolding get_empty_pool_def a Let_def prod.case
    using assms(2)
    apply (simp add: l g pu del: ring_link_def)
    by (cases junk)
       (simp add: set_pool_def fresh_pool_def CAP_eq bump_ring_operations_def
          count_alloced_pool_def empty_free_list_def count_live_pool_def Let_def cong: if_cong)
qed

lemma filled_pool_Nil: "filled_pool p junk [] = fresh_pool p junk"
  by (simp add: filled_pool_def fresh_pool_def POOL_ROOTS_CAPACITY_def POOL_SIZE_eq HEADER_SIZE_def SLOT_SIZE_def)

lemma filled_pool_fields [simp]:
  "major_free_list (filled_pool p junk vs) =
     (if length vs < POOL_ROOTS_CAPACITY then slot_addr p (length vs) else p)"
  "minor_free_list (filled_pool p junk vs) = p"
  "alloc_count (filled_pool p junk vs) = int (length vs)"
  "hd_next (filled_pool p junk vs) = p"
  "hd_prev (filled_pool p junk vs) = p"
  "last_minor_free_slot (filled_pool p junk vs) = 0"
  by (simp_all add: filled_pool_def fresh_pool_def)

lemma filled_pool_roots:
  "roots (filled_pool p junk vs) i =
     (if i < length vs then vs ! i
      else if i < POOL_ROOTS_CAPACITY then next_free p i OR 1 else roots junk i)"
  by (simp add: filled_pool_def fresh_pool_def)

lemma take_slot_filled:
  assumes al: "pool_aligned p" and nz: "p \<noteq> 0"
    and h: "heap s p = Some (filled_pool p junk vs)"
    and k: "length vs < POOL_ROOTS_CAPACITY"
  shows "take_slot E for_young p s =
           Inr (slot_addr p (length vs),
                remember_if for_young (slot_addr p (length vs))
                  (set_pool p ((filled_pool p junk vs)
                    \<lparr>alloc_count := int (length vs) + 1,
                     major_free_list := next_free p (length vs)\<rparr>) s))"
proof -
  let ?pl = "filled_pool p junk vs"
  let ?pl1 = "?pl\<lparr>alloc_count := int (length vs) + 1\<rparr>"
  let ?s1 = "set_pool p ?pl1 s"
  let ?a = "slot_addr p (length vs)"
  have mj: "major_free_list ?pl = ?a" using k by simp
  have ne: "\<not> is_empty_free_list (major_free_list ?pl) p"
    using slot_addr_neq_base[OF k] k by (simp add: is_empty_free_list_def)
  have h1: "heap ?s1 p = Some ?pl1" by (simp add: set_pool_def)
  have rd: "read_slot ?s1 ?a = Inr (next_free p (length vs) OR 1)"
    using read_slot_slot_addr[OF al k h1] k by (simp add: filled_pool_roots)
  have vl0: "valid_link ?s1 p (next_free p (length vs))"
  proof (cases "Suc (length vs) < POOL_ROOTS_CAPACITY")
    case True
    have "is_free_slot (roots ?pl1 (Suc (length vs))) p"
      using is_free_slot_next_free[OF al] True by (simp add: filled_pool_roots)
    then show ?thesis
      unfolding valid_link_def next_free_def using True h1 by auto
  next
    case False
    then show ?thesis by (simp add: valid_link_def next_free_def)
  qed
  have vl: "valid_link ?s1 p (((next_free p (length vs) OR 1) OR 1) - 1)"
    using vl0 by (simp only: untag_next_free[OF al])
  have pop: "free_list_pop E p Major ?s1 =
      Inr (?a, set_pool p (set_free_list Major (next_free p (length vs)) ?pl1) ?s1)"
    unfolding free_list_pop_def
    using nz slot_addr_neq_base[OF k, of p] k
    by (simp add: get_pool_Some[OF nz h1] get_free_list_def Let_def DEBUGassert_def
        is_empty_free_list_def slot_addr_header[OF al k] rd assert_def
        is_free_slot_next_free[OF al] untag_free_slot_link[OF al vl] untag_next_free[OF al]
        untag_tag_next_free[OF al])
  show ?thesis
    unfolding take_slot_def
    using ne
    by (simp add: get_pool_Some[OF nz h] Let_def pop is_empty_free_list_def)
       (simp add: set_free_list_def set_pool_def remember_if_def)
qed

lemma filled_pool_snoc:
  assumes "pool_aligned p" "length vs < POOL_ROOTS_CAPACITY"
  shows "(filled_pool p junk vs)
           \<lparr>alloc_count := int (length vs) + 1, major_free_list := next_free p (length vs),
            roots := (roots (filled_pool p junk vs))(length vs := v)\<rparr>
         = filled_pool p junk (vs @ [v])"
  using assms
  by (auto simp: filled_pool_def fresh_pool_def next_free_def fun_eq_iff nth_append)

lemma create_filled:
  assumes al: "pool_aligned p" and nz: "p \<noteq> 0"
    and h: "heap s p = Some (filled_pool p junk vs)" and hd: "pools s = p"
    and k: "length vs < POOL_ROOTS_CAPACITY"
  shows "rem_boxroot_create E v s =
           Some (Inr (slot_addr p (length vs),
                      remember_if (is_young_block E v) (slot_addr p (length vs))
                        (set_pool p (filled_pool p junk (vs @ [v])) s)))"
proof -
  let ?pl2 = "(filled_pool p junk vs)
                  \<lparr>alloc_count := int (length vs) + 1,
                   major_free_list := next_free p (length vs)\<rparr>"
  let ?y = "is_young_block E v"
  let ?s2 = "remember_if ?y (slot_addr p (length vs)) (set_pool p ?pl2 s)"
  have nf: "\<not> is_full_pool (filled_pool p junk vs)"
    using k by (simp add: is_full_pool_def)
  have a: "alloc_slot E ?y s = Some (Inr (slot_addr p (length vs), ?s2))"
    unfolding alloc_slot_def
    using nz nf by (simp add: hd Let_def get_pool_Some[OF nz h] take_slot_filled[OF al nz h k])
  have h2: "heap ?s2 p = Some ?pl2" by (simp add: set_pool_def remember_if_def remember_def)
  have w: "write_slot (slot_addr p (length vs)) v ?s2 =
             Inr (remember_if ?y (slot_addr p (length vs))
                    (set_pool p (filled_pool p junk (vs @ [v])) s))"
    unfolding write_slot_slot_addr[OF al k h2]
    using filled_pool_snoc[OF al k, of junk v]
    by (simp add: set_pool_def remember_if_def remember_def)
  show ?thesis
    unfolding rem_boxroot_create_def
    using slot_addr_neq0[OF al k]
    by (simp add: a w)
qed

lemma ring_link_frame:
  assumes "ring_link p q s = Inr s'"
  shows "ref_table s' = ref_table s" "stderr s' = stderr s" "scanned s' = scanned s"
    "is_setup s' = is_setup s" "pools s' = pools s" "full_pools s' = full_pools s"
    "page_supply s' = page_supply s"
  using assms
  by (auto simp: ring_link_def ebind_Inr_iff set_pool_def bump_ring_operations_def Let_def)

lemma ring_pop_frame:
  assumes "ring_pop t s = Inr (r, s')"
  shows "ref_table s' = ref_table s" "stderr s' = stderr s" "scanned s' = scanned s"
    "is_setup s' = is_setup s" "pools s' = pools s" "full_pools s' = full_pools s"
    "page_supply s' = page_supply s"
  using assms
  by (auto simp: ring_pop_def ebind_Inr_iff Let_def ring_link_frame split: if_splits)

lemma ring_push_back_frame:
  assumes "ring_push_back a t s = Inr (r, s')"
  shows "ref_table s' = ref_table s" "stderr s' = stderr s" "scanned s' = scanned s"
    "is_setup s' = is_setup s" "pools s' = pools s" "full_pools s' = full_pools s"
    "page_supply s' = page_supply s"
  using assms
  by (auto simp: ring_push_back_def ebind_Inr_iff Let_def ring_link_frame split: if_splits)


lemma find_available_pool_first:
  assumes "pools s = 0" "page_supply s = (p, junk) # rest" "p \<noteq> 0" "pool_aligned p"
  shows "find_available_pool E s = Some (Inr (p, pool_added p (fresh_pool p junk) s))"
proof -
  have l: "find_available_pool_loop s = Some (Inr s)"
    using assms(1) by (subst find_available_pool_loop.simps) simp
  have nf: "\<not> is_full_pool (fresh_pool p junk)"
    by (simp add: is_full_pool_def fresh_pool_def CAP_eq)
  show ?thesis
    unfolding find_available_pool_def l
    using assms nf
    by (simp add: get_empty_pool_fresh[OF assms(2,3,4)] pool_added_def set_pool_def
        get_pool_def assert_def)
qed

lemma create_first:
  assumes "is_setup s" "pools s = 0" "page_supply s = (p, junk) # rest" "p \<noteq> 0"
    "pool_aligned p"
  shows "rem_boxroot_create E v s =
           Some (Inr (slot_addr p 0,
                      remember_if (is_young_block E v) (slot_addr p 0)
                        (pool_added p (filled_pool p junk [v]) s)))"
proof -
  let ?s1 = "pool_added p (fresh_pool p junk) s"
  have h1: "heap ?s1 p = Some (filled_pool p junk [])"
    by (simp add: pool_added_def set_pool_def filled_pool_Nil)
  have k: "length ([]::val list) < POOL_ROOTS_CAPACITY" by (simp add: CAP_eq)
  have nf: "\<not> is_full_pool (fresh_pool p junk)"
    by (simp add: is_full_pool_def fresh_pool_def CAP_eq)
  let ?y = "is_young_block E v"
  have t: "take_slot E ?y p ?s1 =
      Inr (slot_addr p 0, remember_if ?y (slot_addr p 0) (set_pool p ((filled_pool p junk [])
                  \<lparr>alloc_count := 1, major_free_list := next_free p 0\<rparr>) ?s1))"
    using take_slot_filled[OF assms(5,4) h1 k, of E ?y] by simp
  have a: "alloc_slot E ?y s = Some (Inr (slot_addr p 0,
        remember_if ?y (slot_addr p 0) (set_pool p ((filled_pool p junk [])
                  \<lparr>alloc_count := 1, major_free_list := next_free p 0\<rparr>) ?s1)))"
    unfolding alloc_slot_def
    using assms(1,2,4) nf h1
    by (simp add: find_available_pool_first[OF assms(2,3,4,5)] get_pool_def t filled_pool_Nil
        assert_def)
  let ?s2 = "remember_if ?y (slot_addr p 0) (set_pool p ((filled_pool p junk [])
                  \<lparr>alloc_count := 1, major_free_list := next_free p 0\<rparr>) ?s1)"
  have h2: "heap ?s2 p = Some ((filled_pool p junk [])
                  \<lparr>alloc_count := 1, major_free_list := next_free p 0\<rparr>)"
    by (simp add: set_pool_def remember_if_def remember_def)
  have w: "write_slot (slot_addr p 0) v ?s2 =
             Inr (remember_if ?y (slot_addr p 0) (pool_added p (filled_pool p junk [v]) s))"
    unfolding write_slot_slot_addr[OF assms(5) k[simplified] h2]
    using filled_pool_snoc[OF assms(5) k, of junk v]
    by (simp add: set_pool_def pool_added_def remember_if_def remember_def)
  show ?thesis
    unfolding rem_boxroot_create_def
    using slot_addr_neq0[OF assms(5) k[simplified]]
    by (simp add: a w)
qed

lemma setup_initial:
  "rem_boxroot_setup (initial_state sl) = (1, (initial_state sl)\<lparr>is_setup := True\<rparr>)"
  by (simp add: rem_boxroot_setup_def initial_state_def)

lemma pool_aligned_example: "pool_aligned 0x4000"
  by (simp add: pool_aligned_def POOL_SIZE_eq)

subsection \<open>Calls before setup\<close>

lemma create_before_setup:
  "\<not> is_setup s \<Longrightarrow> pools s = 0 \<Longrightarrow>
   rem_boxroot_create E v s = Some (Inr (0, s\<lparr>stderr := stderr s @ [not_setup_message]\<rparr>))"
  by (simp add: rem_boxroot_create_def alloc_slot_def)

text \<open>
  C8, as stated: every call to \<open>create\<close> made before \<open>setup\<close> returns the null handle and
  the diagnostic message is emitted exactly once across all such calls. Two calls on
  the initial state both return null, and the message is on standard error twice.
\<close>

theorem create_before_setup_logs_twice:
  "create_all example_env [1, 1] (initial_state []) =
     Some (Inr ([0, 0], (initial_state [])\<lparr>stderr := [not_setup_message, not_setup_message]\<rparr>))"
  by (simp add: create_before_setup initial_state_def)

text \<open>
  C8, amended: as long as the engine is not set up (the flag is clear and the ring of
  pools is empty, as in the initial state), every call to \<open>create\<close> returns the null
  handle, changes nothing but standard error, and emits the diagnostic message once
  per call: \<open>n\<close> calls emit it \<open>n\<close> times.
\<close>

theorem create_before_setup_logs_every_call:
  "\<not> is_setup s \<Longrightarrow> pools s = 0 \<Longrightarrow>
   create_all E vs s =
     Some (Inr (replicate (length vs) 0,
                s\<lparr>stderr := stderr s @ replicate (length vs) not_setup_message\<rparr>))"
proof (induction vs arbitrary: s)
  case Nil
  then show ?case by simp
next
  case (Cons v vs)
  let ?s1 = "s\<lparr>stderr := stderr s @ [not_setup_message]\<rparr>"
  have "\<not> is_setup ?s1" and "pools ?s1 = 0"
    using Cons.prems by simp_all
  from Cons.IH [OF this] create_before_setup [OF Cons.prems, of E v]
  show ?case by (simp add: replicate_append_same)
qed

theorem create_before_setup_logs_every_call_witness:
  "\<not> is_setup (initial_state []) \<and> pools (initial_state []) = 0 \<and>
   create_all example_env [1, 3, 5] (initial_state []) =
     Some (Inr ([0, 0, 0],
                (initial_state [])\<lparr>stderr := [not_setup_message, not_setup_message,
                                              not_setup_message]\<rparr>))"
proof -
  have a: "\<not> is_setup (initial_state [])" and b: "pools (initial_state []) = 0"
    by (simp_all add: initial_state_def)
  show ?thesis
    using create_before_setup_logs_every_call [OF a b, of example_env "[1, 3, 5]"] a b
    by (simp add: initial_state_def numeral_3_eq_3)
qed

subsection \<open>Handle stability across modify\<close>

text \<open>
  C4: for every handle that addresses a cell of a live pool (so it is not null) and
  every sequence of \<open>modify\<close> calls on it, each call succeeds and hands the caller back
  the handle it was given: the handle variable is never rewritten. The new value is
  written in place, into the cell the handle addresses, and no other cell changes.
\<close>

theorem modify_keeps_handle:
  "read_slot s h = Inr v0 \<Longrightarrow>
   \<exists>s'. modify_all E h vs s = Inr (h, s') \<and> read_slot s' h = Inr (last (v0 # vs)) \<and>
        (\<forall>a. a \<noteq> h \<longrightarrow> read_slot s' a = read_slot s a)"
proof (induction vs arbitrary: s v0)
  case Nil
  then show ?case by simp
next
  case (Cons v vs)
  from modify_step[OF Cons.prems, of E v] obtain s1 where
    m: "rem_boxroot_modify E h v s = Inr (h, s1)" and r: "read_slot s1 h = Inr v"
    and o: "\<forall>a. a \<noteq> h \<longrightarrow> read_slot s1 a = read_slot s a" by blast
  from Cons.IH[OF r] obtain s' where
    "modify_all E h vs s1 = Inr (h, s')" "read_slot s' h = Inr (last (v # vs))"
    "\<forall>a. a \<noteq> h \<longrightarrow> read_slot s' a = read_slot s1 a" by blast
  with m o show ?case by auto
qed

theorem modify_keeps_handle_witness:
  "\<exists>h s1 s'. rem_boxroot_create example_env 1
                (snd (rem_boxroot_setup (initial_state [(0x4000, zero_pool)]))) = Some (Inr (h, s1)) \<and>
     read_slot s1 h = Inr 1 \<and>
     modify_all example_env h [3, 0x100008, 5] s1 = Inr (h, s') \<and>
     read_slot s' h = Inr 5"
proof -
  let ?s0 = "(initial_state [(0x4000, zero_pool)])\<lparr>is_setup := True\<rparr>"
  let ?s1 = "pool_added 0x4000 (filled_pool 0x4000 zero_pool [1]) ?s0"
  have ny: "\<not> is_young_block example_env 1"
    by (simp add: is_young_block_def Is_block_def)
  have "rem_boxroot_create example_env 1 ?s0 =
          Some (Inr (slot_addr 0x4000 0,
                 remember_if (is_young_block example_env 1) (slot_addr 0x4000 0) ?s1))"
    by (rule create_first[OF _ _ _ _ pool_aligned_example])
       (simp_all add: initial_state_def)
  then have c: "rem_boxroot_create example_env 1 ?s0 = Some (Inr (slot_addr 0x4000 0, ?s1))"
    using ny by (simp add: remember_if_def)
  have r: "read_slot ?s1 (slot_addr 0x4000 0) = Inr 1"
    by (subst read_slot_slot_addr[OF pool_aligned_example, where pl = "filled_pool 0x4000 zero_pool [1]"])
       (simp_all add: CAP_eq pool_added_def set_pool_def filled_pool_roots)
  from modify_keeps_handle[OF r, of example_env "[3, 0x100008, 5]"] c r
  show ?thesis by (auto simp: setup_initial)
qed

subsection \<open>Where create takes its slot\<close>

lemma kept_refl [simp]: "kept s s"
  by (simp add: kept_def)


lemma kept_updates [simp]:
  "kept s (set_pool p pl s1) = kept s s1"
  "kept s (bump_ring_operations s1) = kept s s1"
  "kept s (count_live_pool s1) = kept s s1"
  "kept s (count_alloced_pool s1) = kept s s1"
  "kept s (count_freed_pool s1) = kept s s1"
  "kept s (bxr_free_pool p s1) = kept s s1"
  "kept s (s1\<lparr>pools := a\<rparr>) = kept s s1"
  "kept s (s1\<lparr>full_pools := a\<rparr>) = kept s s1"
  "kept s (s1\<lparr>heap := hp\<rparr>) = kept s s1"
  "kept s (s1\<lparr>page_supply := sl\<rparr>) = kept s s1"
  by (simp_all add: kept_def set_pool_def bump_ring_operations_def count_live_pool_def
      count_alloced_pool_def count_freed_pool_def bxr_free_pool_def Let_def)

lemma write_slot_kept: "write_slot a v s = Inr s' \<Longrightarrow> kept s s'"
  by (auto simp: write_slot_Inr_iff)













lemma get_set_free_list [simp]:
  "get_free_list w (set_free_list w a pl) = a"
  "get_free_list (other_list w) (set_free_list w a pl) = get_free_list (other_list w) pl"
  "alloc_count (set_free_list w a pl) = alloc_count pl"
  "roots (set_free_list w a pl) = roots pl"
  "hd_next (set_free_list w a pl) = hd_next pl"
  "hd_prev (set_free_list w a pl) = hd_prev pl"
  "last_minor_free_slot (set_free_list w a pl) = last_minor_free_slot pl"
  by (cases w; simp add: get_free_list_def set_free_list_def other_list_def)+

lemma get_free_list_upd [simp]:
  "get_free_list w (pl\<lparr>alloc_count := n\<rparr>) = get_free_list w pl"
  "get_free_list w (pl\<lparr>roots := r\<rparr>) = get_free_list w pl"
  by (cases w; simp add: get_free_list_def)+




lemma write_slot_heap:
  assumes "write_slot a v s = Inr s'" "heap s p = Some pl"
  shows "\<exists>pl'. heap s' p = Some pl' \<and> (pl' = pl \<or> (\<exists>r. pl' = pl\<lparr>roots := r\<rparr>))"
proof -
  from assms(1) obtain q i ql where
    s': "s' = set_pool q (ql\<lparr>roots := (roots ql)(i := v)\<rparr>) s" and q: "heap s q = Some ql"
    by (auto simp: write_slot_Inr_iff)
  show ?thesis
  proof (cases "q = p")
    case True
    with q assms(2) show ?thesis by (auto simp: s' set_pool_def)
  next
    case False
    with assms(2) show ?thesis by (simp add: s' set_pool_def)
  qed
qed





subsection \<open>One release, in closed form\<close>

lemma valid_link_set_pool:
  "heap s p = Some pl \<Longrightarrow> roots pl' = roots pl \<Longrightarrow> valid_link s p a \<Longrightarrow>
   valid_link (set_pool p pl' s) p a"
  by (auto simp: valid_link_def)


subsection \<open>The scan callback in a minor collection\<close>

lemma tag_free_slot_Inr: "tag_free_slot E s a = Inr t \<Longrightarrow> t = a OR 1"
  by (auto simp: tag_free_slot_def ebind_Inr_iff)

lemma scan_pool_minor:
  assumes "scan_pool E action True p s = Inr s'"
  shows "s' = splice p s"
proof -
  from assms obtain pl where pl: "p \<noteq> 0" "heap s p = Some pl"
    by (auto simp: scan_pool_def ebind_Inr_iff get_pool_Inr_iff)
  show ?thesis
  proof (cases "minor_free_list pl = p")
    case True
    with assms pl show ?thesis
      by (simp add: scan_pool_def get_pool_def splice_def is_empty_free_list_def)
  next
    case False
    with assms pl obtain s1 pl1 where
      w: "write_slot (last_minor_free_slot pl) (major_free_list pl OR 1) s = Inr s1" and
      g: "heap s1 p = Some pl1" and
      s': "s' = set_pool p (pl1\<lparr>major_free_list := minor_free_list pl1,
                                    minor_free_list := empty_free_list p\<rparr>) s1"
      by (auto simp: scan_pool_def get_pool_Inr_iff is_empty_free_list_def ebind_Inr_iff
          dest!: tag_free_slot_Inr)
    with False pl show ?thesis
      by (simp add: splice_def empty_free_list_def)
  qed
qed

lemma splice_kept: "kept s (splice p s)"
  by (auto simp: splice_def split: option.splits sum.splits dest: write_slot_kept)

lemma splice_fields [simp]:
  "pools (splice p s) = pools s" "full_pools (splice p s) = full_pools s"
  "scanned (splice p s) = scanned s" "stats (splice p s) = stats s"
  by (auto simp: splice_def write_slot_Inr_iff split: option.splits sum.splits)

lemma splice_next_of: "next_of (splice p s) = next_of s"
proof
  fix q
  show "next_of (splice p s) q = next_of s q"
  proof (cases "heap s q")
    case None
    then show ?thesis
      by (auto simp: next_of_def splice_def write_slot_Inr_iff
          split: option.splits sum.splits if_splits)
  next
    case (Some ql)
    show ?thesis
    proof (cases "\<exists>pl s1. heap s p = Some pl \<and> minor_free_list pl \<noteq> p \<and>
        write_slot (last_minor_free_slot pl) (major_free_list pl OR 1) s = Inr s1")
      case False
      then show ?thesis
        by (auto simp: splice_def split: option.splits sum.splits)
    next
      case True
      then obtain pl s1 where pl: "heap s p = Some pl" "minor_free_list pl \<noteq> p" and
        w: "write_slot (last_minor_free_slot pl) (major_free_list pl OR 1) s = Inr s1" by blast
      from write_slot_heap[OF w Some] obtain ql1 where
        q1: "heap s1 q = Some ql1" "hd_next ql1 = hd_next ql" by auto
      from write_slot_heap[OF w pl(1)] obtain pl1 where p1: "heap s1 p = Some pl1" by auto
      show ?thesis
        using pl w p1 q1 Some by (auto simp: splice_def next_of_def)
    qed
  qed
qed


lemma scan_pool_ring_loop_rule:
  assumes run: "scan_pool_ring_loop E action m first p s = Some (Inr s')"
    and last: "\<And>p s s1 pl. scan_pool E action m p s = Inr s1 \<Longrightarrow> get_pool s1 p = Inr pl \<Longrightarrow>
                 hd_next pl = first \<Longrightarrow> P p s s1"
    and step: "\<And>p s s1 pl s'. scan_pool E action m p s = Inr s1 \<Longrightarrow> get_pool s1 p = Inr pl \<Longrightarrow>
                 hd_next pl \<noteq> first \<Longrightarrow> P (hd_next pl) s1 s' \<Longrightarrow> P p s s'"
  shows "P p s s'"
proof -
  let ?Q = "\<lambda>E' a' m' f' (p::addr) s (r::error + state). (E' = E \<and> a' = action \<and> m' = m \<and> f' = first) \<longrightarrow>
               (\<forall>s'. r = Inr s' \<longrightarrow> P p s s')"
  have "?Q E action m first p s (Inr s')"
  proof (rule scan_pool_ring_loop.raw_induct[where P = ?Q, OF _ run])
    fix loop E' a' m' f' p s r
    assume IH: "\<And>E' a' m' f' p s r. loop E' a' m' f' p s = Some r \<Longrightarrow>
        (E' = E \<and> a' = action \<and> m' = m \<and> f' = first) \<longrightarrow> (\<forall>s'. r = Inr s' \<longrightarrow> P p s s')"
      and body: "(case scan_pool E' a' m' p s of
        Inl e \<Rightarrow> Some (Inl e)
      | Inr s1 \<Rightarrow>
          (case get_pool s1 p of
             Inl e \<Rightarrow> Some (Inl e)
           | Inr pl \<Rightarrow>
               if hd_next pl \<noteq> f'
               then loop E' a' m' f' (hd_next pl) s1
               else Some (Inr s1))) = Some r"
    show "(E' = E \<and> a' = action \<and> m' = m \<and> f' = first) \<longrightarrow> (\<forall>s'. r = Inr s' \<longrightarrow> P p s s')"
    proof (intro impI allI)
      fix s' assume eq: "E' = E \<and> a' = action \<and> m' = m \<and> f' = first" and r: "r = Inr s'"
      from body eq r obtain s1 pl where
        sc: "scan_pool E action m p s = Inr s1" and g: "get_pool s1 p = Inr pl"
        by (auto split: sum.splits)
      show "P p s s'"
      proof (cases "hd_next pl = first")
        case True
        with body eq r sc g have "s' = s1" by simp
        with last[OF sc g True] show ?thesis by simp
      next
        case False
        with body eq r sc g have "loop E action m first (hd_next pl) s1 = Some (Inr s')" by simp
        from IH[OF this] have "P (hd_next pl) s1 s'" by simp
        from step[OF sc g False this] show ?thesis .
      qed
    qed
  qed
  then show ?thesis by simp
qed



lemma fold_splice_fields [simp]:
  "pools (fold splice ps s) = pools s" "full_pools (fold splice ps s) = full_pools s"
  "scanned (fold splice ps s) = scanned s" "next_of (fold splice ps s) = next_of s"
  by (induction ps arbitrary: s) (simp_all add: splice_next_of)










subsection \<open>Filling a pool, and running out of memory\<close>

lemma create_all_filled:
  assumes al: "pool_aligned p" and nz: "p \<noteq> 0"
  shows "heap s p = Some (filled_pool p junk vs) \<Longrightarrow> pools s = p \<Longrightarrow>
     length vs + length ws \<le> POOL_ROOTS_CAPACITY \<Longrightarrow>
     \<forall>w \<in> set ws. \<not> is_young_block E w \<Longrightarrow>
     create_all E ws s =
       Some (Inr (map (slot_addr p) [length vs..<length vs + length ws],
                  set_pool p (filled_pool p junk (vs @ ws)) s))"
proof (induction ws arbitrary: s vs)
  case Nil
  then show ?case by (simp add: set_pool_def fun_upd_idem)
next
  case (Cons w ws)
  have k: "length vs < POOL_ROOTS_CAPACITY" using Cons.prems(3) by simp
  let ?s1 = "set_pool p (filled_pool p junk (vs @ [w])) s"
  have c: "rem_boxroot_create E w s = Some (Inr (slot_addr p (length vs), ?s1))"
    using create_filled[OF al nz Cons.prems(1,2) k, of E w] Cons.prems(4)
    by (simp add: remember_if_def)
  have h1: "heap ?s1 p = Some (filled_pool p junk (vs @ [w]))" by simp
  have p1: "pools ?s1 = p" using Cons.prems(2) by simp
  have l1: "length (vs @ [w]) + length ws \<le> POOL_ROOTS_CAPACITY" using Cons.prems(3) by simp
  have y1: "\<forall>w \<in> set ws. \<not> is_young_block E w" using Cons.prems(4) by simp
  have u: "[length vs..<length vs + length (w # ws)]
             = length vs # [length (vs @ [w])..<length (vs @ [w]) + length ws]"
    by (simp add: upt_rec)
  show ?case
    unfolding create_all.simps c u
    using Cons.IH[OF h1 p1 l1 y1]
    by (simp add: set_pool_def)
qed

lemma create_oom:
  assumes "is_setup s" "pools s = p" "p \<noteq> 0" "heap s p = Some pl" "is_full_pool pl"
    "hd_next pl = p" "full_pools s = 0" "page_supply s = []"
  shows "rem_boxroot_create E v s = Some (Inr (0, (count_live_pool s)\<lparr>pools := 0, full_pools := p\<rparr>))"
proof -
  have g: "get_pool s p = Inr pl" using assms by (simp add: get_pool_def)
  have pop: "ring_pop p s = Inr ((p, 0), s)"
    using assms by (simp add: ring_pop_def g assert_def)
  have pb: "ring_push_back p 0 (s\<lparr>pools := 0\<rparr>) = Inr (p, s\<lparr>pools := 0\<rparr>)"
    using assms by (simp add: ring_push_back_def)
  have l2: "find_available_pool_loop (s\<lparr>pools := 0, full_pools := p\<rparr>)
              = Some (Inr (s\<lparr>pools := 0, full_pools := p\<rparr>))"
    by (subst find_available_pool_loop.simps) simp
  have l1: "find_available_pool_loop s = Some (Inr (s\<lparr>pools := 0, full_pools := p\<rparr>))"
    apply (subst find_available_pool_loop.simps)
    using assms by (simp add: g pop pb l2)
  have ge: "get_empty_pool E (s\<lparr>pools := 0, full_pools := p\<rparr>)
              = Inr (0, (count_live_pool s)\<lparr>pools := 0, full_pools := p\<rparr>)"
    using assms
    by (simp add: get_empty_pool_def bxr_alloc_uninitialised_pool_def count_live_pool_def Let_def)
  have f: "find_available_pool E s
             = Some (Inr (0, (count_live_pool s)\<lparr>pools := 0, full_pools := p\<rparr>))"
    unfolding find_available_pool_def l1 by (simp add: ge)
  show ?thesis
    unfolding rem_boxroot_create_def alloc_slot_def Let_def
    using assms by (simp add: g f)
qed

subsection \<open>The scan callback on an empty ring of non-full pools\<close>

lemma CALL_GC_ACTION_pools:
  "CALL_GC_ACTION action p i s = Inr s' \<Longrightarrow> pools s' = pools s"
  by (auto simp: CALL_GC_ACTION_def ebind_Inr_iff Let_def)

lemma scan_pool_slots_pools:
  "scan_pool_slots E action p n cur a s = Inr s' \<Longrightarrow> pools s' = pools s"
proof (induction n arbitrary: cur a s)
  case 0
  then show ?case by (auto simp: ebind_Inr_iff add_total_scanning_work_def)
next
  case (Suc n)
  show ?case
  proof (cases "a = 0")
    case True
    with Suc.prems show ?thesis by (auto simp: add_total_scanning_work_def)
  next
    case False
    with Suc.prems obtain pl where pl: "get_pool s p = Inr pl"
      by (auto simp: ebind_Inr_iff)
    show ?thesis
    proof (cases "is_free_slot (roots pl cur) p")
      case True
      with Suc.prems False pl have "scan_pool_slots E action p n (Suc cur) a s = Inr s'"
        by simp
      from Suc.IH[OF this] show ?thesis .
    next
      case nf: False
      with Suc.prems False pl obtain s1 where
        c: "CALL_GC_ACTION action p cur s = Inr s1" and
        r: "scan_pool_slots E action p n (Suc cur) (a - 1) s1 = Inr s'"
        by (auto simp: ebind_Inr_iff)
      from Suc.IH[OF r] CALL_GC_ACTION_pools[OF c] show ?thesis by simp
    qed
  qed
qed

lemma scan_pool_pools:
  assumes "scan_pool E action m p s = Inr s'"
  shows "pools s' = pools s"
proof (cases m)
  case True
  with assms scan_pool_minor[of E action p s s'] show ?thesis by simp
next
  case False
  with assms show ?thesis
    by (auto simp: scan_pool_def ebind_Inr_iff Let_def add_useful_scanning_work_def
        dest!: scan_pool_slots_pools)
qed

lemma scan_pool_ring_pools:
  assumes "scan_pool_ring E action m first s = Some (Inr s')"
  shows "pools s' = pools s"
proof (cases "first = 0")
  case True
  with assms show ?thesis by (simp add: scan_pool_ring_def)
next
  case False
  with assms have l: "scan_pool_ring_loop E action m first first s = Some (Inr s')"
    by (simp add: scan_pool_ring_def)
  show ?thesis
  proof (rule scan_pool_ring_loop_rule[OF l])
    fix p s s1 pl
    assume "scan_pool E action m p s = Inr s1"
    then show "pools s1 = pools s" by (rule scan_pool_pools)
  next
    fix p s s1 pl s'
    assume "scan_pool E action m p s = Inr s1" "pools s' = pools s1"
    then show "pools s' = pools s" using scan_pool_pools by simp
  qed
qed

lemma free_empty_pools_null:
  "pools s = 0 \<Longrightarrow> free_empty_pools s = Some (Inl Null_deref)"
  unfolding free_empty_pools_def
  by (subst free_empty_pools_loop.simps) (simp add: get_pool_def)

lemma scan_roots_null:
  assumes "pools s = 0"
  shows "scan_roots E action m s \<noteq> Some (Inr s')"
    and "(BOXROOT_DEBUG E \<longrightarrow> validate E s = Some (Inr ())) \<Longrightarrow>
         scan_pool_ring E action m (full_pools s) s = Some (Inr s2) \<Longrightarrow>
         scan_roots E action m s = Some (Inl Null_deref)"
proof -
  have a: "scan_pool_ring E action m (pools s) s = Some (Inr s)"
    using assms by (simp add: scan_pool_ring_def)
  show "scan_roots E action m s \<noteq> Some (Inr s')"
  proof
    assume r: "scan_roots E action m s = Some (Inr s')"
    then obtain s2 where b: "scan_pool_ring E action m (full_pools s) s = Some (Inr s2)"
      and c: "free_empty_pools s2 = Some (Inr s')"
      by (auto simp: scan_roots_def a split: option.splits sum.splits if_splits)
    from scan_pool_ring_pools[OF b] assms have "pools s2 = 0" by simp
    from free_empty_pools_null[OF this] c show False by simp
  qed
  assume v: "BOXROOT_DEBUG E \<longrightarrow> validate E s = Some (Inr ())"
    and b: "scan_pool_ring E action m (full_pools s) s = Some (Inr s2)"
  from scan_pool_ring_pools[OF b] assms have "pools s2 = 0" by simp
  from free_empty_pools_null[OF this] v b
  show "scan_roots E action m s = Some (Inl Null_deref)"
    by (simp add: scan_roots_def a)
qed

text \<open>
  C10: \<open>free_empty_pools\<close> reads \<open>pools->hd.next\<close> without a null check. In every state
  in which the engine is set up, the ring of non-full pools is empty and
  \<open>ring_operations\<close> is positive, the scan callback does not return normally; and if the
  walk of the ring of full pools completes (and, in a debug build, the validation
  before it passes), the callback ends in the dereference of the null pointer.
\<close>

theorem callback_null_deref_on_empty_ring:
  assumes "is_setup s" and "pools s = 0" and "0 < ring_operations (stats s)"
  shows "(\<forall>s'. scanning_callback E action in_minor s \<noteq> Some (Inr s')) \<and>
         (\<forall>s2. (BOXROOT_DEBUG E \<longrightarrow> validate E (count_collection in_minor s) = Some (Inr ())) \<longrightarrow>
               scan_pool_ring E action in_minor (full_pools s) (count_collection in_minor s)
                 = Some (Inr s2) \<longrightarrow>
               scanning_callback E action in_minor s = Some (Inl Null_deref))"
proof -
  let ?s1 = "count_collection in_minor s"
  have f: "pools ?s1 = 0" "full_pools ?s1 = full_pools s" "boxroot_used ?s1"
    using assms by (simp_all add: count_collection_def boxroot_used_def)
  have cb: "scanning_callback E action in_minor s = scan_roots E action in_minor ?s1"
    using assms(1) f(3) by (simp add: scanning_callback_def Let_def)
  show ?thesis
    unfolding cb using scan_roots_null[OF f(1), of E action in_minor] f(2) by auto
qed


theorem callback_null_deref_on_empty_ring_witness:
  "\<exists>hs s1 s2.
     create_all example_env (replicate POOL_ROOTS_CAPACITY 1)
       ((initial_state [(0x4000, zero_pool)])\<lparr>is_setup := True\<rparr>) = Some (Inr (hs, s1)) \<and>
     rem_boxroot_create example_env 1 s1 = Some (Inr (0, s2)) \<and>
     is_setup s2 \<and> pools s2 = 0 \<and> full_pools s2 = 0x4000 \<and> ring_operations (stats s2) = 1 \<and>
     scanning_callback example_env example_action True s2 = Some (Inl Null_deref)"
proof -
  let ?P = "0x4000 :: addr"
  let ?s0 = "(initial_state [(?P, zero_pool)])\<lparr>is_setup := True\<rparr>"
  note al = pool_aligned_example
  have nz: "?P \<noteq> 0" by simp
  have ny: "\<not> is_young_block example_env 1"
    by (simp add: is_young_block_def Is_block_def)
  define n where "n = POOL_ROOTS_CAPACITY - 1"
  have cap: "POOL_ROOTS_CAPACITY = Suc n" by (simp add: n_def CAP_eq)
  define sa where "sa = pool_added ?P (filled_pool ?P zero_pool [1]) ?s0"
  have c1: "rem_boxroot_create example_env 1 ?s0 = Some (Inr (slot_addr ?P 0, sa))"
    using create_first[OF _ _ _ nz al, of ?s0 zero_pool "[]" example_env 1] ny
    by (simp add: sa_def initial_state_def remember_if_def)
  have ga: "heap sa ?P = Some (filled_pool ?P zero_pool [1])" "pools sa = ?P"
    "full_pools sa = 0" "is_setup sa" "page_supply sa = []"
    "ring_operations (stats sa) = 1"
    by (simp_all add: sa_def initial_state_def pool_added_def set_pool_def
        bump_ring_operations_def count_alloced_pool_def count_live_pool_def Let_def
        empty_stats_def)
  define vs where "vs = [1] @ replicate n (1::val)"
  define s1 where "s1 = set_pool ?P (filled_pool ?P zero_pool vs) sa"
  have c2: "create_all example_env (replicate n 1) sa =
        Some (Inr (map (slot_addr ?P) [length [1::val]..<length [1::val] + length (replicate n (1::val))], s1))"
    unfolding s1_def vs_def
    by (rule create_all_filled[OF al nz ga(1,2)]) (simp_all add: cap ny)
  have ca: "create_all example_env (replicate POOL_ROOTS_CAPACITY 1) ?s0 =
        Some (Inr (slot_addr ?P 0 # map (slot_addr ?P) [1..<1 + n], s1))"
    unfolding cap replicate_Suc create_all.simps c1 using c2 by simp
  have lv: "length vs = POOL_ROOTS_CAPACITY" by (simp add: vs_def cap)
  have g1: "heap s1 ?P = Some (filled_pool ?P zero_pool vs)" "pools s1 = ?P"
    "full_pools s1 = 0" "is_setup s1" "page_supply s1 = []"
    "ring_operations (stats s1) = 1"
    by (simp_all add: s1_def ga)
  define s2 where "s2 = (count_live_pool s1)\<lparr>pools := 0, full_pools := ?P\<rparr>"
  have c3: "rem_boxroot_create example_env 1 s1 = Some (Inr (0, s2))"
    unfolding s2_def
    by (rule create_oom[OF g1(4) g1(2) nz g1(1) _ _ g1(3) g1(5)])
       (simp_all add: is_full_pool_def lv)
  have g2: "is_setup s2" "pools s2 = 0" "full_pools s2 = ?P" "ring_operations (stats s2) = 1"
    "heap s2 ?P = Some (filled_pool ?P zero_pool vs)"
    using g1 by (simp_all add: s2_def count_live_pool_def Let_def)
  have pos: "0 < ring_operations (stats s2)" by (simp add: g2)
  let ?t = "count_collection True s2"
  have gt: "heap ?t ?P = Some (filled_pool ?P zero_pool vs)"
    by (simp add: count_collection_def g2)
  have sp: "scan_pool example_env example_action True ?P ?t = Inr ?t"
    by (simp add: scan_pool_def get_pool_def gt is_empty_free_list_def)
  have ring: "scan_pool_ring example_env example_action True (full_pools s2) ?t = Some (Inr ?t)"
    unfolding scan_pool_ring_def g2
    by (subst scan_pool_ring_loop.simps) (simp add: sp get_pool_def gt)
  have db: "BOXROOT_DEBUG example_env \<longrightarrow> validate example_env ?t = Some (Inr ())"
    by (simp add: example_env_def)
  from callback_null_deref_on_empty_ring[OF g2(1,2) pos, of example_env example_action True]
    db ring
  have "scanning_callback example_env example_action True s2 = Some (Inl Null_deref)"
    by blast
  with ca c3 g2 show ?thesis by blast
qed

subsection \<open>Teardown\<close>

lemma find_available_pool_loop_single_full:
  assumes "pools s = p" "p \<noteq> 0" "heap s p = Some pl" "is_full_pool pl" "hd_next pl = p"
    "full_pools s = 0"
  shows "find_available_pool_loop s = Some (Inr (s\<lparr>pools := 0, full_pools := p\<rparr>))"
proof -
  have g: "get_pool s p = Inr pl" using assms by (simp add: get_pool_def)
  have pop: "ring_pop p s = Inr ((p, 0), s)"
    using assms by (simp add: ring_pop_def g assert_def)
  have pb: "ring_push_back p 0 (s\<lparr>pools := 0\<rparr>) = Inr (p, s\<lparr>pools := 0\<rparr>)"
    using assms by (simp add: ring_push_back_def)
  have l2: "find_available_pool_loop (s\<lparr>pools := 0, full_pools := p\<rparr>)
              = Some (Inr (s\<lparr>pools := 0, full_pools := p\<rparr>))"
    by (subst find_available_pool_loop.simps) simp
  show ?thesis
    apply (subst find_available_pool_loop.simps)
    using assms by (simp add: g pop pb l2)
qed

lemma create_overflow:
  assumes "is_setup s" "pools s = p" "p \<noteq> 0" "heap s p = Some pl" "is_full_pool pl"
    "hd_next pl = p" "full_pools s = 0"
    "page_supply s = (q, junk) # rest" "q \<noteq> 0" "pool_aligned q"
  shows "rem_boxroot_create E v s =
           Some (Inr (slot_addr q 0,
                      remember_if (is_young_block E v) (slot_addr q 0)
                        (pool_added q (filled_pool q junk [v])
                           (s\<lparr>pools := 0, full_pools := p\<rparr>))))"
proof -
  let ?t = "s\<lparr>pools := 0, full_pools := p\<rparr>"
  let ?s1 = "pool_added q (fresh_pool q junk) ?t"
  let ?y = "is_young_block E v"
  have g: "get_pool s p = Inr pl" using assms by (simp add: get_pool_def)
  have l: "find_available_pool_loop s = Some (Inr ?t)"
    by (rule find_available_pool_loop_single_full[OF assms(2-7)])
  have nf: "\<not> is_full_pool (fresh_pool q junk)"
    by (simp add: is_full_pool_def fresh_pool_def CAP_eq)
  have ps: "page_supply ?t = (q, junk) # rest" using assms by simp
  have f: "find_available_pool E s = Some (Inr (q, ?s1))"
    unfolding find_available_pool_def l
    using assms(9) nf assms(8)
    by (simp add: get_empty_pool_fresh[OF ps assms(9,10)] pool_added_def set_pool_def
        get_pool_def assert_def)
  have h1: "heap ?s1 q = Some (filled_pool q junk [])"
    by (simp add: filled_pool_Nil)
  have k: "length ([]::val list) < POOL_ROOTS_CAPACITY" by (simp add: CAP_eq)
  let ?s2 = "remember_if ?y (slot_addr q 0) (set_pool q ((filled_pool q junk [])
                  \<lparr>alloc_count := 1, major_free_list := next_free q 0\<rparr>) ?s1)"
  have t: "take_slot E ?y q ?s1 = Inr (slot_addr q 0, ?s2)"
    using take_slot_filled[OF assms(10,9) h1 k, of E ?y] by simp
  have a: "alloc_slot E ?y s = Some (Inr (slot_addr q 0, ?s2))"
    unfolding alloc_slot_def Let_def
    using assms(1,2,3,4,5,9) nf t
    by (simp add: f get_pool_def filled_pool_Nil assert_def)
  have h2: "heap ?s2 q = Some ((filled_pool q junk [])
                  \<lparr>alloc_count := 1, major_free_list := next_free q 0\<rparr>)"
    by simp
  have w: "write_slot (slot_addr q 0) v ?s2 =
             Inr (remember_if ?y (slot_addr q 0) (pool_added q (filled_pool q junk [v]) ?t))"
    unfolding write_slot_slot_addr[OF assms(10) k[simplified] h2]
    using filled_pool_snoc[OF assms(10) k, of junk v]
    by (simp add: set_pool_def pool_added_def remember_if_def remember_def)
  show ?thesis
    unfolding rem_boxroot_create_def
    using slot_addr_neq0[OF assms(10) k[simplified]]
    by (simp add: a w)
qed

lemma teardown_not_setup: "\<not> is_setup s \<Longrightarrow> rem_boxroot_teardown s = Some (Inr s)"
  by (simp add: rem_boxroot_teardown_def)

lemma teardown_single_pool:
  assumes "is_setup s" "pools s = q" "q \<noteq> 0" "heap s q = Some ql" "hd_next ql = q"
  shows "rem_boxroot_teardown s =
           Some (Inr (count_freed_pool (bxr_free_pool q (s\<lparr>is_setup := False, pools := 0\<rparr>))))"
proof -
  let ?s1 = "s\<lparr>is_setup := False\<rparr>"
  have pop: "ring_pop q ?s1 = Inr ((q, 0), ?s1)"
    using assms by (simp add: ring_pop_def get_pool_def assert_def)
  have l2: "free_all_pools (count_freed_pool (bxr_free_pool q (?s1\<lparr>pools := 0\<rparr>)))
      = Some (Inr (count_freed_pool (bxr_free_pool q (?s1\<lparr>pools := 0\<rparr>))))"
    by (subst free_all_pools.simps) (simp add: bxr_free_pool_def)
  have "free_all_pools ?s1 = Some (Inr (count_freed_pool (bxr_free_pool q (?s1\<lparr>pools := 0\<rparr>))))"
    apply (subst free_all_pools.simps)
    using assms by (simp add: pop l2)
  with assms(1) show ?thesis by (simp add: rem_boxroot_teardown_def)
qed

text \<open>
  C7 fails on the code: \<open>free_all_pools\<close> walks the ring of non-full pools only. After
  one pool has been filled and a further \<open>create\<close> has moved it to the ring of full
  pools and opened a second pool, \<open>teardown\<close> releases the second pool and leaves the
  first one allocated, still reachable from \<open>full_pools\<close>: two pools were allocated and
  one was freed.
\<close>

theorem teardown_leaks_full_ring:
  "\<exists>hs s1 h s2 s3.
     create_all example_env (replicate POOL_ROOTS_CAPACITY 1)
       ((initial_state [(0x4000, zero_pool), (0x8000, zero_pool)])\<lparr>is_setup := True\<rparr>)
       = Some (Inr (hs, s1)) \<and>
     rem_boxroot_create example_env 1 s1 = Some (Inr (h, s2)) \<and>
     pools s2 = 0x8000 \<and> full_pools s2 = 0x4000 \<and>
     rem_boxroot_teardown s2 = Some (Inr s3) \<and>
     heap s3 0x8000 = None \<and> heap s3 0x4000 \<noteq> None \<and> full_pools s3 = 0x4000 \<and>
     total_alloced_pools (stats s3) = 2 \<and> total_freed_pools (stats s3) = 1"
proof -
  let ?P = "0x4000 :: addr"
  let ?Q = "0x8000 :: addr"
  let ?s0 = "(initial_state [(?P, zero_pool), (?Q, zero_pool)])\<lparr>is_setup := True\<rparr>"
  note al = pool_aligned_example
  have alq: "pool_aligned ?Q" by (simp add: pool_aligned_def POOL_SIZE_eq)
  have nz: "?P \<noteq> 0" and nzq: "?Q \<noteq> 0" by simp_all
  have ny: "\<not> is_young_block example_env 1"
    by (simp add: is_young_block_def Is_block_def)
  define n where "n = POOL_ROOTS_CAPACITY - 1"
  have cap: "POOL_ROOTS_CAPACITY = Suc n" by (simp add: n_def CAP_eq)
  define sa where "sa = pool_added ?P (filled_pool ?P zero_pool [1]) ?s0"
  have c1: "rem_boxroot_create example_env 1 ?s0 = Some (Inr (slot_addr ?P 0, sa))"
    using create_first[OF _ _ _ nz al, of ?s0 zero_pool "[(?Q, zero_pool)]" example_env 1] ny
    by (simp add: sa_def initial_state_def remember_if_def)
  have ga: "heap sa ?P = Some (filled_pool ?P zero_pool [1])" "pools sa = ?P"
    "full_pools sa = 0" "is_setup sa" "page_supply sa = [(?Q, zero_pool)]"
    "total_alloced_pools (stats sa) = 1" "total_freed_pools (stats sa) = 0"
    by (simp_all add: sa_def initial_state_def pool_added_def set_pool_def
        bump_ring_operations_def count_alloced_pool_def count_live_pool_def Let_def
        empty_stats_def)
  define vs where "vs = [1] @ replicate n (1::val)"
  define s1 where "s1 = set_pool ?P (filled_pool ?P zero_pool vs) sa"
  have c2: "create_all example_env (replicate n 1) sa =
        Some (Inr (map (slot_addr ?P) [length [1::val]..<length [1::val] + length (replicate n (1::val))], s1))"
    unfolding s1_def vs_def
    by (rule create_all_filled[OF al nz ga(1,2)]) (simp_all add: cap ny)
  have ca: "create_all example_env (replicate POOL_ROOTS_CAPACITY 1) ?s0 =
        Some (Inr (slot_addr ?P 0 # map (slot_addr ?P) [1..<1 + n], s1))"
    unfolding cap replicate_Suc create_all.simps c1 using c2 by simp
  have lv: "length vs = POOL_ROOTS_CAPACITY" by (simp add: vs_def cap)
  have g1: "heap s1 ?P = Some (filled_pool ?P zero_pool vs)" "pools s1 = ?P"
    "full_pools s1 = 0" "is_setup s1" "page_supply s1 = [(?Q, zero_pool)]"
    "total_alloced_pools (stats s1) = 1" "total_freed_pools (stats s1) = 0"
    by (simp_all add: s1_def ga)
  define s2 where "s2 = pool_added ?Q (filled_pool ?Q zero_pool [1])
                           (s1\<lparr>pools := 0, full_pools := ?P\<rparr>)"
  have c3: "rem_boxroot_create example_env 1 s1 = Some (Inr (slot_addr ?Q 0, s2))"
    using create_overflow[OF g1(4) g1(2) nz g1(1) _ _ g1(3) g1(5) nzq alq, of example_env 1] ny
    by (simp add: is_full_pool_def lv s2_def remember_if_def)
  have g2: "is_setup s2" "pools s2 = ?Q" "full_pools s2 = ?P"
    "heap s2 ?Q = Some (filled_pool ?Q zero_pool [1])"
    "heap s2 ?P = Some (filled_pool ?P zero_pool vs)"
    "total_alloced_pools (stats s2) = 2" "total_freed_pools (stats s2) = 0"
    using g1
    by (simp_all add: s2_def pool_added_def set_pool_def bump_ring_operations_def
        count_alloced_pool_def count_live_pool_def Let_def)
  define s3 where "s3 = count_freed_pool (bxr_free_pool ?Q (s2\<lparr>is_setup := False, pools := 0\<rparr>))"
  have td: "rem_boxroot_teardown s2 = Some (Inr s3)"
    unfolding s3_def by (rule teardown_single_pool[OF g2(1,2) nzq g2(4)]) simp
  have g3: "heap s3 ?Q = None" "heap s3 ?P \<noteq> None" "full_pools s3 = ?P"
    "total_alloced_pools (stats s3) = 2" "total_freed_pools (stats s3) = 1"
    using g2 by (simp_all add: s3_def bxr_free_pool_def count_freed_pool_def)
  from ca c3 td g2 g3 show ?thesis by blast
qed

subsection \<open>The scan callback in a major collection\<close>

lemma roots_id: "\<exists>r. pl = pl\<lparr>roots := r\<rparr>" for pl :: pool
  by (rule exI[of _ "roots pl"]) simp

lemma scan_frame_iff:
  "scan_frame A s s' \<longleftrightarrow>
     (ref_table s' = ref_table s \<and> stderr s' = stderr s \<and> is_setup s' = is_setup s \<and>
      pools s' = pools s \<and> full_pools s' = full_pools s \<and> page_supply s' = page_supply s \<and>
      (\<forall>q. q \<notin> A \<longrightarrow> heap s' q = heap s q) \<and>
      (\<forall>q. heap s q = None \<longrightarrow> heap s' q = None) \<and>
      (\<forall>q pl. heap s q = Some pl \<longrightarrow> (\<exists>r. heap s' q = Some (pl\<lparr>roots := r\<rparr>))))"
  unfolding scan_frame_def by (simp split: option.splits) blast

lemma scan_frame_refl [simp]: "scan_frame A s s"
  unfolding scan_frame_iff using roots_id by simp

lemma scan_frame_stats [simp]: "scan_frame A s (s\<lparr>stats := st\<rparr>)"
  unfolding scan_frame_iff using roots_id by simp



lemma scan_frame_mono: "scan_frame A s s' \<Longrightarrow> A \<subseteq> B \<Longrightarrow> scan_frame B s s'"
  unfolding scan_frame_iff by (simp add: subset_iff) blast








subsection \<open>Rings are duplicate-free\<close>

lemma ring_seg_unique:
  "ring_seg nx f p xs \<Longrightarrow> ring_seg nx f p ys \<Longrightarrow> xs = ys"
proof (induction xs arbitrary: p ys)
  case Nil
  then show ?case by simp
next
  case (Cons x xs)
  then show ?case
    by (cases ys) (auto split: option.splits if_splits)
qed

lemma ring_seg_suffix:
  "ring_seg nx f p xs \<Longrightarrow> b \<in> set xs \<Longrightarrow>
   \<exists>ys zs. xs = ys @ zs \<and> ring_seg nx f b zs"
proof (induction xs arbitrary: p)
  case Nil
  then show ?case by simp
next
  case (Cons x xs)
  show ?case
  proof (cases "b = p")
    case True
    with Cons.prems(1) show ?thesis by (intro exI[of _ "[]"] exI[of _ "x # xs"]) simp
  next
    case False
    with Cons.prems have bx: "b \<in> set xs" by auto
    from Cons.prems(1) obtain n where n: "nx p = Some n" by (auto split: option.splits)
    with Cons.prems(1) bx have "ring_seg nx f n xs" by (auto split: if_splits)
    from Cons.IH[OF this bx] obtain ys zs where "xs = ys @ zs" "ring_seg nx f b zs" by blast
    then show ?thesis by (intro exI[of _ "x # ys"] exI[of _ zs]) simp
  qed
qed

lemma ring_seg_distinct: "ring_seg nx f p xs \<Longrightarrow> distinct xs"
proof (induction xs arbitrary: p)
  case Nil
  then show ?case by simp
next
  case (Cons x xs)
  from Cons.prems have xp: "x = p" by simp
  from Cons.prems obtain n where n: "nx p = Some n" by (auto split: option.splits)
  show ?case
  proof (cases "n = f")
    case True
    with Cons.prems n show ?thesis by simp
  next
    case False
    with Cons.prems n have r: "ring_seg nx f n xs" by simp
    have "p \<notin> set xs"
    proof
      assume "p \<in> set xs"
      from ring_seg_suffix[OF r this] obtain ys zs where
        xs: "xs = ys @ zs" and z: "ring_seg nx f p zs" by blast
      from ring_seg_unique[OF z Cons.prems] xp have "zs = p # xs" by simp
      with xs show False by (metis append_eq_Cons_conv append_self_conv2 length_append
            length_Cons not_add_less2 lessI)
    qed
    with Cons.IH[OF r] xp show ?thesis by simp
  qed
qed

lemma ring_of_distinct: "ring_of s f ps \<Longrightarrow> distinct ps"
  by (auto simp: ring_of_def dest: ring_seg_distinct split: if_splits)


subsection \<open>A whole ring, and both rings\<close>
















end
